theory Spec2Isabelle
  imports Complex_Main "HOL-Library.Char_ord" "HOL-Library.List_Lexorder" "HOL-Library.Multiset"
begin

section \<open>JavaScript primitives used by the sources\<close>

text \<open>
  Strings are lists of characters. A JavaScript number is modelled by its exact value
  where the source only produces integers far below \<open>2^53\<close> (\<open>int\<close>) and by
  \<open>real\<close> where the source calls the trigonometric functions; \<open>NaN\<close> is \<open>None\<close>.
  The white space of \<^verbatim>\<open>trim\<close> and \<^verbatim>\<open>parseInt\<close> is the one of the ASCII range.
\<close>

definition isWhiteSpace :: "char \<Rightarrow> bool" where
  "isWhiteSpace c = (c \<in> set [CHR '' '', CHR 0x09, CHR 0x0A, CHR 0x0B, CHR 0x0C, CHR 0x0D])"

definition trim :: "string \<Rightarrow> string" where
  "trim s = rev (dropWhile isWhiteSpace (rev (dropWhile isWhiteSpace s)))"

definition isDigit :: "char \<Rightarrow> bool" where
  "isDigit c = (CHR ''0'' \<le> c \<and> c \<le> CHR ''9'')"

definition digitVal :: "char \<Rightarrow> int" where
  "digitVal c = int (of_char c) - 48"

text \<open>The value of a run of decimal digits, most significant first.\<close>

definition decimal :: "string \<Rightarrow> int" where
  "decimal ds = foldl (\<lambda>acc c. acc * 10 + digitVal c) 0 ds"

text \<open>
  \<^verbatim>\<open>parseInt(x, 10)\<close>: leading white space is skipped, one sign is read, then the
  longest run of digits; no digit at all gives \<open>NaN\<close>.
\<close>

definition parseInt :: "string \<Rightarrow> int option" where
  "parseInt x =
     (let s = dropWhile isWhiteSpace x;
          neg = (case s of [] \<Rightarrow> False | c # _ \<Rightarrow> c = CHR ''-'');
          body = (case s of [] \<Rightarrow> [] | c # r \<Rightarrow> if c = CHR ''-'' \<or> c = CHR ''+'' then r else s);
          ds = takeWhile isDigit body
      in if ds = [] then None else Some (if neg then - decimal ds else decimal ds))"

text \<open>\<^verbatim>\<open>String.prototype.split(sep)\<close> for a separator of one character.\<close>

fun split_on :: "char \<Rightarrow> string \<Rightarrow> string list" where
  "split_on sep [] = [[]]"
| "split_on sep (c # cs) =
     (if c = sep then [] # split_on sep cs
      else (case split_on sep cs of [] \<Rightarrow> [[c]] | f # fs \<Rightarrow> (c # f) # fs))"

text \<open>
  The remainder operator \<^verbatim>\<open>%\<close> truncates towards zero: the result has the sign of the
  dividend.
\<close>

definition js_rem :: "int \<Rightarrow> int \<Rightarrow> int" where
  "js_rem a b = sgn a * (\<bar>a\<bar> mod \<bar>b\<bar>)"

section \<open>Clock strings and countdowns (App.jsx)\<close>

text \<open>
  \<^verbatim>\<open>const [h, m, s] = String(hms).split(":").map((x) => parseInt(x, 10));
  return h * 3600 + m * 60 + (s || 0);\<close>
  A missing component is \<open>undefined\<close>; in the arithmetic it behaves as \<open>NaN\<close>, and
  \<^verbatim>\<open>s || 0\<close> turns a missing, \<open>NaN\<close> or zero third component into 0.
\<close>

definition nth_num :: "int option list \<Rightarrow> nat \<Rightarrow> int option" where
  "nth_num xs i = (if i < length xs then xs ! i else None)"

definition timeToSecondsSinceMidnight :: "string \<Rightarrow> int option" where
  "timeToSecondsSinceMidnight hms =
     (let parts = map parseInt (split_on CHR '':'' hms);
          h = nth_num parts 0; m = nth_num parts 1; s = nth_num parts 2
      in case (h, m) of
           (Some hv, Some mv) \<Rightarrow> Some (hv * 3600 + mv * 60 + (case s of None \<Rightarrow> 0 | Some sv \<Rightarrow> sv))
         | _ \<Rightarrow> None)"

text \<open>
  \<^verbatim>\<open>etaSecondsFromGTFS\<close> reads the wall clock through \<^verbatim>\<open>nowSecondsSinceMidnight()\<close>;
  here the reading \<open>nowSec\<close> is an argument. Every comparison with \<open>NaN\<close> is false, so
  an unparsable clock string falls through to the last \<^verbatim>\<open>return\<close> and yields \<open>NaN\<close>.
\<close>

definition etaSecondsFromGTFS :: "int \<Rightarrow> string \<Rightarrow> int option" where
  "etaSecondsFromGTFS nowSec timeStr =
     (case timeToSecondsSinceMidnight timeStr of
        None \<Rightarrow> None
      | Some tSecRaw \<Rightarrow>
          (let tSecNorm = js_rem tSecRaw 86400;
               isNextDay = (tSecRaw \<ge> 86400)
           in if isNextDay then Some ((tSecNorm + 86400) - nowSec)
              else if tSecNorm < nowSec then Some ((tSecNorm + 86400) - nowSec)
              else Some (tSecNorm - nowSec)))"

text \<open>
  A field of a schedule clock string: a non-empty run of decimal digits, short enough for
  every intermediate value to be an exact JavaScript number.
\<close>

definition clockField :: "string \<Rightarrow> bool" where
  "clockField ds = (ds \<noteq> [] \<and> length ds \<le> 9 \<and> list_all isDigit ds)"

definition MAX_SHOW_MIN :: int where "MAX_SHOW_MIN = 90"
definition SOON_WINDOW_MIN :: int where "SOON_WINDOW_MIN = 20"


text \<open>
  \<^verbatim>\<open>String.prototype.toUpperCase\<close> on the letters \<open>a\<close> to \<open>z\<close>; every other
  character is left as it is.
\<close>

definition upperChar :: "char \<Rightarrow> char" where
  "upperChar c = (if CHR ''a'' \<le> c \<and> c \<le> CHR ''z'' then char_of (of_char c - (32::nat)) else c)"

definition toUpperCase :: "string \<Rightarrow> string" where
  "toUpperCase s = map upperChar s"

text \<open>The decimal rendering of a non-negative integer, as a template literal prints it.\<close>

fun showNat :: "nat \<Rightarrow> string" where
  "showNat n = (if n < 10 then [char_of (48 + n)]
                else showNat (n div 10) @ [char_of (48 + n mod 10)])"

definition showInt :: "int \<Rightarrow> string" where
  "showInt i = (if i < 0 then CHR ''-'' # showNat (nat (- i)) else showNat (nat i))"

text \<open>
  \<^verbatim>\<open>Math.round(diffSec / 60)\<close> rounds a half upwards; on integers it is
  \<open>(diffSec + 30) div 60\<close>.
\<close>

definition fmtEtaMinutes :: "int \<Rightarrow> string" where
  "fmtEtaMinutes diffSec =
     (let min = (diffSec + 30) div 60
      in if min \<le> 0 then ''Now'' else if min = 1 then ''1 min'' else showInt min @ '' min'')"

subsection \<open>Synthesised countdowns\<close>

text \<open>
  \<^verbatim>\<open>Math.random()\<close> is a sequence \<open>rnd\<close> of numbers; \<open>k\<close> counts the draws made so
  far. The noise of draw \<open>r\<close> is \<^verbatim>\<open>Math.floor(r * (jitter * 2 + 1) - jitter)\<close>.
\<close>

definition noise :: "int \<Rightarrow> real \<Rightarrow> int" where
  "noise jitter r = \<lfloor>r * real_of_int (jitter * 2 + 1) - real_of_int jitter\<rfloor>"

definition simulateEtas :: "(nat \<Rightarrow> real) \<Rightarrow> nat \<Rightarrow> int \<Rightarrow> nat \<Rightarrow> int \<Rightarrow> int \<Rightarrow> int list" where
  "simulateEtas rnd k base cnt jitter step =
     sort (map (\<lambda>i. max 1 (base + int i * step + noise jitter (rnd (k + i)))) [0..<cnt])"

subsection \<open>Arrival groups\<close>

datatype source = Scheduled | Estimated

record arrival =
  timeStr :: "string option"
  etaSec :: int
  etaLabel :: string
  source :: source

record arrival_group =
  line :: string
  headsign :: string
  upcoming :: "arrival list"

text \<open>
  \<^verbatim>\<open>times.map((t) => ({ timeStr: t, etaSec: etaSecondsFromGTFS(t) })).filter((x) => x.etaSec >= 0)\<close>:
  a \<open>NaN\<close> countdown fails the comparison and is dropped with the negative ones.
\<close>

definition nonNegativeEtas :: "int \<Rightarrow> string list \<Rightarrow> (string \<times> int) list" where
  "nonNegativeEtas nowSec tms =
     List.map_filter (\<lambda>t. case etaSecondsFromGTFS nowSec t of
                              None \<Rightarrow> None
                            | Some e \<Rightarrow> if e \<ge> 0 then Some (t, e) else None) tms"

definition scheduledArrival :: "string \<times> int \<Rightarrow> arrival" where
  "scheduledArrival x =
     \<lparr>timeStr = Some (fst x), etaSec = snd x, etaLabel = fmtEtaMinutes (snd x), source = Scheduled\<rparr>"

definition upcomingScheduled :: "int \<Rightarrow> string list \<Rightarrow> arrival list" where
  "upcomingScheduled nowSec tms =
     map scheduledArrival
       (take 5 (sort_key snd (filter (\<lambda>x. snd x \<le> MAX_SHOW_MIN * 60) (nonNegativeEtas nowSec tms))))"

definition hasSoon :: "arrival list \<Rightarrow> bool" where
  "hasSoon ups = list_ex (\<lambda>u. etaSec u \<le> SOON_WINDOW_MIN * 60) ups"

definition estimatedArrival :: "int \<Rightarrow> arrival" where
  "estimatedArrival m =
     \<lparr>timeStr = None, etaSec = m * 60, etaLabel = showInt m @ '' min'', source = Estimated\<rparr>"

text \<open>
  The body of the inner loop of \<^verbatim>\<open>nextArrivals\<close> for one \<open>(line, headsign)\<close> key:
  the group pushed, if any, and the number of random draws made so far.
\<close>

definition groupFor ::
  "int \<Rightarrow> (nat \<Rightarrow> real) \<Rightarrow> nat \<Rightarrow> string \<Rightarrow> string \<Rightarrow> string list \<Rightarrow> arrival_group option \<times> nat" where
  "groupFor nowSec rnd k lname hs tms =
     (let ups = upcomingScheduled nowSec tms
      in if \<not> hasSoon ups then
           (let sim = map estimatedArrival (simulateEtas rnd k 6 3 2 6);
                maybeFirstScheduled = (case ups of [] \<Rightarrow> [] | u # _ \<Rightarrow> [u])
            in (Some \<lparr>line = toUpperCase lname, headsign = hs,
                      upcoming = take 4 (sim @ maybeFirstScheduled)\<rparr>, k + 3))
         else if ups \<noteq> [] then
           (Some \<lparr>line = toUpperCase lname, headsign = hs, upcoming = take 4 ups\<rparr>, k)
         else (None, k))"

fun headsignLoop ::
  "int \<Rightarrow> (nat \<Rightarrow> real) \<Rightarrow> string \<Rightarrow> (string \<times> string list) list
     \<Rightarrow> arrival_group list \<times> nat \<Rightarrow> arrival_group list \<times> nat" where
  "headsignLoop nowSec rnd lname [] st = st"
| "headsignLoop nowSec rnd lname ((hs, tms) # rest) (groups, k) =
     (case groupFor nowSec rnd k lname hs tms of
        (None, k') \<Rightarrow> headsignLoop nowSec rnd lname rest (groups, k')
      | (Some g, k') \<Rightarrow> headsignLoop nowSec rnd lname rest (groups @ [g], k'))"

fun lineLoop ::
  "int \<Rightarrow> (nat \<Rightarrow> real) \<Rightarrow> (string \<times> (string \<times> string list) list) list
     \<Rightarrow> arrival_group list \<times> nat \<Rightarrow> arrival_group list \<times> nat" where
  "lineLoop nowSec rnd [] st = st"
| "lineLoop nowSec rnd ((lname, byHeadsign) # rest) st =
     lineLoop nowSec rnd rest (headsignLoop nowSec rnd lname byHeadsign st)"

text \<open>\<^verbatim>\<open>a.upcoming[0]?.etaSec ?? 999999\<close>\<close>

definition firstEta :: "arrival_group \<Rightarrow> int" where
  "firstEta g = (case upcoming g of [] \<Rightarrow> 999999 | u # _ \<Rightarrow> etaSec u)"

text \<open>
  The index \<^verbatim>\<open>ARRIVALS_BY_DEST\<close> is station \<open>\<rightarrow>\<close> line \<open>\<rightarrow>\<close> headsign \<open>\<rightarrow>\<close> clock
  strings, each level in the key order of \<^verbatim>\<open>Object.keys\<close>. The groups before the final
  sort are \<open>collectGroups\<close>; the sort is stable and its keys are numbers.
\<close>

type_synonym station_data = "(string \<times> (string \<times> string list) list) list"

definition collectGroups :: "int \<Rightarrow> (nat \<Rightarrow> real) \<Rightarrow> nat \<Rightarrow> station_data \<Rightarrow> arrival_group list" where
  "collectGroups nowSec rnd k stationData = fst (lineLoop nowSec rnd stationData ([], k))"

definition nextArrivals ::
  "(string \<times> station_data) list \<Rightarrow> string option \<Rightarrow> int \<Rightarrow> (nat \<Rightarrow> real) \<Rightarrow> nat \<Rightarrow> arrival_group list" where
  "nextArrivals arrivalsByDest selectedStop nowSec rnd k =
     (case selectedStop of
        None \<Rightarrow> []
      | Some stopId \<Rightarrow>
          (case map_of arrivalsByDest stopId of
             None \<Rightarrow> []
           | Some stationData \<Rightarrow> sort_key firstEta (collectGroups nowSec rnd k stationData)))"

subsection \<open>Vocabulary of the estimator's properties\<close>

text \<open>
  The listed clock strings of a key whose countdown lies within the display horizon, in
  the order of the index, each paired with its countdown; \<open>clockOf\<close> reads the same pair
  back from a scheduled entry.
\<close>

definition eligible :: "int \<Rightarrow> string list \<Rightarrow> (string \<times> int) list" where
  "eligible nowSec tms =
     map (\<lambda>t. (t, the (etaSecondsFromGTFS nowSec t)))
       (filter (\<lambda>t. case etaSecondsFromGTFS nowSec t of
                        None \<Rightarrow> False | Some e \<Rightarrow> 0 \<le> e \<and> e \<le> 5400) tms)"

definition clockOf :: "arrival \<Rightarrow> string \<times> int" where
  "clockOf u = (the (timeStr u), etaSec u)"

text \<open>
  The \<open>(line, headsign)\<close> keys stored at a station, the key a group is displayed under,
  and the size bound of a group's list.
\<close>

definition groupKey :: "arrival_group \<Rightarrow> string \<times> string" where
  "groupKey g = (line g, headsign g)"

definition stationKeys :: "station_data \<Rightarrow> (string \<times> string) list" where
  "stationKeys stationData =
     concat (map (\<lambda>(lname, byHeadsign). map (\<lambda>(hs, tms). (lname, hs)) byHeadsign) stationData)"

definition shownKey :: "string \<times> string \<Rightarrow> string \<times> string" where
  "shownKey key = (toUpperCase (fst key), snd key)"

definition wellSized :: "arrival_group \<Rightarrow> bool" where
  "wellSized g = (1 \<le> length (upcoming g) \<and> length (upcoming g) \<le> 4)"

section \<open>Nearest stops (App.jsx)\<close>

text \<open>
  A coordinate as it is stored in a stop of \<^verbatim>\<open>stops.json\<close>: the property may be
  absent, \<^verbatim>\<open>null\<close>, a number, or a value that is not numeric. \<^verbatim>\<open>Number(v)\<close> is
  \<open>NaN\<close> for an absent or non-numeric value and 0 for \<^verbatim>\<open>null\<close>.
\<close>

datatype coord = Missing | Null | Numeric real | NonNumeric

fun toNumber :: "coord \<Rightarrow> real option" where
  "toNumber Missing = None"
| "toNumber Null = Some 0"
| "toNumber (Numeric r) = Some r"
| "toNumber NonNumeric = None"

text \<open>
  \<^verbatim>\<open>distanceMeters\<close> over the reals. \<^verbatim>\<open>Math.atan2(y, x)\<close> is the angle of the point
  \<open>(x, y)\<close>. A \<open>NaN\<close> argument makes every intermediate value, and the result,
  \<open>NaN\<close>.
\<close>

definition toRad :: "real \<Rightarrow> real" where
  "toRad d = (d * pi) / 180"

definition atan2 :: "real \<Rightarrow> real \<Rightarrow> real" where
  "atan2 y x =
     (if 0 < x then arctan (y / x)
      else if x < 0 then (if 0 \<le> y then arctan (y / x) + pi else arctan (y / x) - pi)
      else if 0 < y then pi / 2 else if y < 0 then - (pi / 2) else 0)"

definition distanceMeters :: "real \<Rightarrow> real \<Rightarrow> real option \<Rightarrow> real option \<Rightarrow> real option" where
  "distanceMeters aLat aLon bLatN bLonN =
     (case (bLatN, bLonN) of
        (Some bLat, Some bLon) \<Rightarrow>
          (let R = 6371000;
               dLat = toRad (bLat - aLat);
               dLon = toRad (bLon - aLon);
               lat1 = toRad aLat;
               lat2 = toRad bLat;
               x = (sin (dLat / 2))\<^sup>2 + cos lat1 * cos lat2 * (sin (dLon / 2))\<^sup>2
           in Some (2 * R * atan2 (sqrt x) (sqrt (1 - x))))
      | _ \<Rightarrow> None)"

text \<open>
  A stop of \<^verbatim>\<open>STOPS\<close> (\<^verbatim>\<open>{id, name, lat, lon}\<close>), and the same stop with the
  computed \<^verbatim>\<open>distM\<close> spread into it.
\<close>

record stop =
  stop_id :: string
  name :: string
  lat :: coord
  lon :: coord

record stop_dist = stop +
  distM :: "real option"

definition attachDist :: "real \<times> real \<Rightarrow> stop \<Rightarrow> stop_dist" where
  "attachDist activeLoc s =
     \<lparr>stop_id = stop_id s, name = name s, lat = lat s, lon = lon s,
      distM = distanceMeters (fst activeLoc) (snd activeLoc) (toNumber (lat s)) (toNumber (lon s))\<rparr>"

text \<open>
  \<^verbatim>\<open>Array.prototype.sort(comparator)\<close>: a comparator result of \<open>NaN\<close> is read as
  \<open>+0\<close>. For a consistent comparator the result is the stable ascending order, which
  the insertion sort below computes. For an inconsistent one (here: a \<open>NaN\<close> distance
  next to two different numeric ones) ECMAScript leaves the order to the implementation;
  the model then still returns a permutation, the one insertion from the right gives.
\<close>

definition sortCompare :: "('a \<Rightarrow> 'a \<Rightarrow> real option) \<Rightarrow> 'a \<Rightarrow> 'a \<Rightarrow> real" where
  "sortCompare cmp a b = (case cmp a b of None \<Rightarrow> 0 | Some v \<Rightarrow> v)"

fun insort_cmp :: "('a \<Rightarrow> 'a \<Rightarrow> real option) \<Rightarrow> 'a \<Rightarrow> 'a list \<Rightarrow> 'a list" where
  "insort_cmp cmp x [] = [x]"
| "insort_cmp cmp x (y # ys) =
     (if sortCompare cmp x y \<le> 0 then x # y # ys else y # insort_cmp cmp x ys)"

definition js_sort :: "('a \<Rightarrow> 'a \<Rightarrow> real option) \<Rightarrow> 'a list \<Rightarrow> 'a list" where
  "js_sort cmp xs = foldr (insort_cmp cmp) xs []"

text \<open>\<^verbatim>\<open>(a, b) => a.distM - b.distM\<close> and \<^verbatim>\<open>(s) => s.distM <= 1200\<close>\<close>

definition byDistM :: "stop_dist \<Rightarrow> stop_dist \<Rightarrow> real option" where
  "byDistM a b = (case (distM a, distM b) of (Some x, Some y) \<Rightarrow> Some (x - y) | _ \<Rightarrow> None)"

definition withinRadius :: "stop_dist \<Rightarrow> bool" where
  "withinRadius s = (case distM s of None \<Rightarrow> False | Some d \<Rightarrow> d \<le> 1200)"

text \<open>
  \<^verbatim>\<open>nearbyStops\<close>, for a list \<^verbatim>\<open>STOPS\<close> (an array, so \<^verbatim>\<open>clampStopsArray\<close>
  returns it): the part after the \<^verbatim>\<open>map\<close> that attaches the distances is
  \<open>nearestOf\<close>.
\<close>

definition nearestOf :: "stop_dist list \<Rightarrow> stop_dist list" where
  "nearestOf mapped =
     (let withDist = js_sort byDistM mapped;
          withinL = filter withinRadius withDist
      in take 12 (if withinL \<noteq> [] then withinL else withDist))"

definition nearbyStops :: "(real \<times> real) option \<Rightarrow> stop list \<Rightarrow> stop_dist list" where
  "nearbyStops activeLoc stops =
     (case activeLoc of
        None \<Rightarrow> []
      | Some loc \<Rightarrow> nearestOf (map (attachDist loc) stops))"

text \<open>
  The haversine of an angle, and a stop on the equator at \<open>d\<close> metres from the point
  \<open>(0, 0)\<close>.
\<close>

definition haversine :: "real \<Rightarrow> real" where
  "haversine \<theta> = (sin (\<theta> / 2))\<^sup>2"

definition equatorStop :: "string \<Rightarrow> real \<Rightarrow> stop" where
  "equatorStop sid d =
     \<lparr>stop_id = sid, name = sid, lat = Numeric 0, lon = Numeric (d * 180 / (6371000 * pi))\<rparr>"

section \<open>Tabular readers\<close>

text \<open>The quote character \<^verbatim>\<open>"\<close> and the delimiter.\<close>

definition dquote :: char where
  "dquote = CHR 0x22"

definition comma :: char where
  "comma = CHR '',''"

text \<open>
  \<^verbatim>\<open>splitCsvLine\<close> (build\_station\_to\_lines.mjs and
  build\_station\_arrivals\_by\_destination): the \<^verbatim>\<open>for\<close> loop over the characters of
  the line, with the variables \<^verbatim>\<open>out\<close>, \<^verbatim>\<open>cur\<close> and \<^verbatim>\<open>inQuotes\<close>. Every quote
  character toggles \<^verbatim>\<open>inQuotes\<close> and is dropped.
\<close>

fun splitCsvLine_loop :: "string \<Rightarrow> string list \<Rightarrow> string \<Rightarrow> bool \<Rightarrow> string list" where
  "splitCsvLine_loop [] out cur inQuotes = out @ [cur]"
| "splitCsvLine_loop (ch # rest) out cur inQuotes =
     (if ch = dquote then splitCsvLine_loop rest out cur (\<not> inQuotes)
      else if ch = comma \<and> \<not> inQuotes then splitCsvLine_loop rest (out @ [cur]) [] inQuotes
      else splitCsvLine_loop rest out (cur @ [ch]) inQuotes)"

definition splitCsvLine :: "string \<Rightarrow> string list" where
  "splitCsvLine line' = splitCsvLine_loop line' [] [] False"

text \<open>
  \<^verbatim>\<open>parseCSVLine\<close> (build\_route\_shapes): inside quotes a quote followed by a quote
  appends one quote and skips the second (\<^verbatim>\<open>i++\<close>).
\<close>

fun parseCSVLine_loop :: "string \<Rightarrow> string list \<Rightarrow> string \<Rightarrow> bool \<Rightarrow> string list" where
  "parseCSVLine_loop [] out cur inQuotes = out @ [cur]"
| "parseCSVLine_loop [ch] out cur inQuotes =
     (if ch = dquote then parseCSVLine_loop [] out cur (\<not> inQuotes)
      else if ch = comma \<and> \<not> inQuotes then parseCSVLine_loop [] (out @ [cur]) [] inQuotes
      else parseCSVLine_loop [] out (cur @ [ch]) inQuotes)"
| "parseCSVLine_loop (ch # nxt # rest) out cur inQuotes =
     (if ch = dquote then
        (if inQuotes \<and> nxt = dquote then parseCSVLine_loop rest out (cur @ [dquote]) inQuotes
         else parseCSVLine_loop (nxt # rest) out cur (\<not> inQuotes))
      else if ch = comma \<and> \<not> inQuotes then parseCSVLine_loop (nxt # rest) (out @ [cur]) [] inQuotes
      else parseCSVLine_loop (nxt # rest) out (cur @ [ch]) inQuotes)"

definition parseCSVLine :: "string \<Rightarrow> string list" where
  "parseCSVLine line' = parseCSVLine_loop line' [] [] False"

text \<open>
  \<^verbatim>\<open>parseCSV\<close> (build\_gtfs\_json.js) reads a whole text: outside quotes a comma ends a
  cell and a line break ends a row, a carriage return before a line feed is skipped. The
  loop returns \<^verbatim>\<open>rows\<close>, \<^verbatim>\<open>row\<close> and \<^verbatim>\<open>cur\<close>; the last cell is then flushed and the
  rows without a non-blank cell are removed.
\<close>

definition isLineBreak :: "char \<Rightarrow> bool" where
  "isLineBreak ch = (ch = CHR 0x0A \<or> ch = CHR 0x0D)"

fun parseCSV_loop ::
  "string \<Rightarrow> string list list \<Rightarrow> string list \<Rightarrow> string \<Rightarrow> bool
     \<Rightarrow> string list list \<times> string list \<times> string" where
  "parseCSV_loop [] rows row cur inQuotes = (rows, row, cur)"
| "parseCSV_loop [ch] rows row cur inQuotes =
     (if ch = dquote then parseCSV_loop [] rows row cur (\<not> inQuotes)
      else if \<not> inQuotes \<and> (ch = comma \<or> isLineBreak ch) then
        (if ch = comma then parseCSV_loop [] rows (row @ [cur]) [] inQuotes
         else parseCSV_loop [] (rows @ [row @ [cur]]) [] [] inQuotes)
      else parseCSV_loop [] rows row (cur @ [ch]) inQuotes)"
| "parseCSV_loop (ch # nxt # rest) rows row cur inQuotes =
     (if ch = dquote then
        (if inQuotes \<and> nxt = dquote then parseCSV_loop rest rows row (cur @ [dquote]) inQuotes
         else parseCSV_loop (nxt # rest) rows row cur (\<not> inQuotes))
      else if \<not> inQuotes \<and> (ch = comma \<or> isLineBreak ch) then
        (if ch = CHR 0x0D \<and> nxt = CHR 0x0A then parseCSV_loop (nxt # rest) rows row cur inQuotes
         else if ch = comma then parseCSV_loop (nxt # rest) rows (row @ [cur]) [] inQuotes
         else parseCSV_loop (nxt # rest) (rows @ [row @ [cur]]) [] [] inQuotes)
      else parseCSV_loop (nxt # rest) rows row (cur @ [ch]) inQuotes)"

definition parseCSV :: "string \<Rightarrow> string list list" where
  "parseCSV text =
     (case parseCSV_loop text [] [] [] False of
        (rows, row, cur) \<Rightarrow>
          filter (\<lambda>r. list_ex (\<lambda>c. trim c \<noteq> []) r)
            (if cur \<noteq> [] \<or> row \<noteq> [] then rows @ [row @ [cur]] else rows))"

subsection \<open>Vocabulary of the readers' properties\<close>

text \<open>
  Writing a line: a quoted field is enclosed in quotes with every quote of its value
  doubled, an unquoted field is written as it is, and the fields are joined by commas.
  An unquoted field is plain when it holds no quote, comma or line break.
\<close>

definition escapeQuotes :: "string \<Rightarrow> string" where
  "escapeQuotes v = concat (map (\<lambda>c. if c = dquote then [dquote, dquote] else [c]) v)"

definition quoteField :: "string \<Rightarrow> string" where
  "quoteField v = dquote # escapeQuotes v @ [dquote]"

definition writeField :: "bool \<times> string \<Rightarrow> string" where
  "writeField f = (if fst f then quoteField (snd f) else snd f)"

fun joinFields :: "string list \<Rightarrow> string" where
  "joinFields [] = []"
| "joinFields [f] = f"
| "joinFields (f # g # fs) = f @ comma # joinFields (g # fs)"

definition plainField :: "bool \<times> string \<Rightarrow> bool" where
  "plainField f = (fst f \<or> (\<forall>c\<in>set (snd f). c \<noteq> dquote \<and> c \<noteq> comma \<and> \<not> isLineBreak c))"

definition dropQuotes :: "string \<Rightarrow> string" where
  "dropQuotes v = filter (\<lambda>c. c \<noteq> dquote) v"

section \<open>Rows of a table\<close>

text \<open>
  A row object maps field names to strings; \<open>None\<close> is \<^verbatim>\<open>undefined\<close>, the value of a
  property that was never set or was set from a missing column. \<open>truthy\<close> is the test
  of \<^verbatim>\<open>if (x)\<close> and \<^verbatim>\<open>x &&\<close> on such a value, \<open>orEmpty\<close> is \<^verbatim>\<open>x || ""\<close>.
\<close>

type_synonym row = "string \<Rightarrow> string option"

definition truthy :: "string option \<Rightarrow> bool" where
  "truthy v = (case v of None \<Rightarrow> False | Some s \<Rightarrow> s \<noteq> [])"

definition orEmpty :: "string option \<Rightarrow> string" where
  "orEmpty v = (case v of None \<Rightarrow> [] | Some s \<Rightarrow> s)"

text \<open>\<^verbatim>\<open>for (let i = 0; i < headers.length; i++) row[headers[i]] = cols[i];\<close>\<close>

definition mkRow :: "string list \<Rightarrow> string list \<Rightarrow> row" where
  "mkRow headers cols =
     foldl (\<lambda>row i. row(headers ! i := (if i < length cols then Some (cols ! i) else None)))
       (\<lambda>_. None) [0..<length headers]"

text \<open>
  \<^verbatim>\<open>loadTable\<close> (build\_station\_arrivals\_by\_destination; \<^verbatim>\<open>loadSmallTable\<close> of
  build\_station\_to\_lines.mjs is the same code) receives the lines that \<^verbatim>\<open>readline\<close>
  delivers, skips the blank ones, takes the first as header and hands every other line
  to the callback as a row. The rows are returned here in the order of the calls.
\<close>

definition loadTable :: "string list \<Rightarrow> row list" where
  "loadTable lines =
     (case filter (\<lambda>l. trim l \<noteq> []) lines of
        [] \<Rightarrow> []
      | h # rest \<Rightarrow> map (\<lambda>l. mkRow (splitCsvLine h) (splitCsvLine l)) rest)"

text \<open>\<^verbatim>\<open>readGTFS\<close> (build\_route\_shapes) trims the header names and uses \<^verbatim>\<open>parseCSVLine\<close>.\<close>

definition readGTFS :: "string list \<Rightarrow> row list" where
  "readGTFS lines =
     (case filter (\<lambda>l. trim l \<noteq> []) lines of
        [] \<Rightarrow> []
      | h # rest \<Rightarrow> map (\<lambda>l. mkRow (map trim (parseCSVLine h)) (parseCSVLine l)) rest)"

text \<open>
  \<^verbatim>\<open>csvToObjects\<close> (build\_gtfs\_json.js): \<^verbatim>\<open>o[headers[j]] = r[j] ?? ""\<close>, for the rows
  after the first.
\<close>

definition mkObject :: "string list \<Rightarrow> string list \<Rightarrow> row" where
  "mkObject headers r =
     foldl (\<lambda>obj j. obj(headers ! j := Some (if j < length r then r ! j else [])))
       (\<lambda>_. None) [0..<length headers]"

definition csvToObjects :: "string \<Rightarrow> row list" where
  "csvToObjects raw =
     (case parseCSV raw of [] \<Rightarrow> [] | headers # rest \<Rightarrow> map (mkObject headers) rest)"

section \<open>Route names\<close>

text \<open>
  A \<^verbatim>\<open>Map\<close> that is only read with \<^verbatim>\<open>get\<close> is the function from a key to the result
  of \<^verbatim>\<open>get\<close>; \<^verbatim>\<open>undefined\<close> (\<open>None\<close>) can be a key. Each of the four builders of
  the route-name mapping is a loop over the route rows.

  build\_station\_arrivals\_by\_destination:
  \<^verbatim>\<open>if (routeId && short) routeIdToLine.set(routeId, short.toUpperCase());\<close>
\<close>

type_synonym name_map = "string option \<Rightarrow> string option"

definition routeIdToLine :: "row list \<Rightarrow> name_map" where
  "routeIdToLine routes =
     foldl (\<lambda>m r. let routeId = r ''route_id'';
                      short = trim (orEmpty (r ''route_short_name''))
                  in if truthy routeId \<and> short \<noteq> [] then m(routeId := Some (toUpperCase short)) else m)
       (\<lambda>_. None) routes"

text \<open>
  build\_station\_to\_lines.mjs:
  \<^verbatim>\<open>if (routeId && shortName) routeIdToShort.set(routeId, shortName.toUpperCase());\<close>
\<close>

definition routeIdToShort_station_to_lines :: "row list \<Rightarrow> name_map" where
  "routeIdToShort_station_to_lines routes =
     foldl (\<lambda>m r. let routeId = r ''route_id'';
                      shortName = trim (orEmpty (r ''route_short_name''))
                  in if truthy routeId \<and> shortName \<noteq> [] then m(routeId := Some (toUpperCase shortName))
                     else m)
       (\<lambda>_. None) routes"

text \<open>
  build\_route\_shapes:
  \<^verbatim>\<open>if (route_id) routeIdToShort.set(route_id, short || route_id);\<close>
\<close>

definition routeIdToShort_route_shapes :: "row list \<Rightarrow> name_map" where
  "routeIdToShort_route_shapes routes =
     foldl (\<lambda>m r. let route_id = r ''route_id'';
                      short = trim (orEmpty (r ''route_short_name''))
                  in if truthy route_id then m(route_id := (if short \<noteq> [] then Some short else route_id))
                     else m)
       (\<lambda>_. None) routes"

text \<open>
  build\_gtfs\_json.js keeps the rows with \<^verbatim>\<open>route_type\<close> \<open>1\<close> when some row has a
  \<^verbatim>\<open>route_type\<close>, and sets \<^verbatim>\<open>routeIdToShort.set(r.route_id, shortName || r.route_id)\<close>
  for each row kept.
\<close>

definition subwayRoutes :: "row list \<Rightarrow> row list" where
  "subwayRoutes routes =
     (if list_ex (\<lambda>r. r ''route_type'' \<noteq> None) routes
      then filter (\<lambda>r. r ''route_type'' = Some ''1'') routes
      else routes)"

definition routeIdToShort_gtfs_json :: "row list \<Rightarrow> name_map" where
  "routeIdToShort_gtfs_json routes =
     foldl (\<lambda>m r. let shortName = trim (orEmpty (r ''route_short_name''))
                  in m(r ''route_id'' := (if shortName \<noteq> [] then Some shortName else r ''route_id'')))
       (\<lambda>_. None) (subwayRoutes routes)"

section \<open>The arrival index (build\_station\_arrivals\_by\_destination)\<close>

text \<open>
  An object used as a dictionary is the list of its entries; \<open>setEntry\<close> replaces the
  value of an existing key in place and appends a new key. (\<^verbatim>\<open>Object.keys\<close> lists
  integer-like keys first; no property below depends on the order of the keys. Keys are
  taken not to name a property that every object inherits, such as \<open>constructor\<close>.)
\<close>

fun setEntry :: "'k \<Rightarrow> ('v option \<Rightarrow> 'v) \<Rightarrow> ('k \<times> 'v) list \<Rightarrow> ('k \<times> 'v) list" where
  "setEntry k f [] = [(k, f None)]"
| "setEntry k f ((k', v) # rest) =
     (if k = k' then (k', f (Some v)) # rest else (k', v) # setEntry k f rest)"

type_synonym arrival_index = "(string \<times> (string \<times> (string \<times> string list) list) list) list"

text \<open>
  \<^verbatim>\<open>pushTime\<close>: each level is created when it is missing, then the time is pushed.
\<close>

definition orNew :: "'a list option \<Rightarrow> 'a list" where
  "orNew v = (case v of None \<Rightarrow> [] | Some x \<Rightarrow> x)"

definition pushTime :: "arrival_index \<Rightarrow> string \<Rightarrow> string \<Rightarrow> string \<Rightarrow> string \<Rightarrow> arrival_index" where
  "pushTime obj stationId lname hs t =
     setEntry stationId
       (\<lambda>byLine. setEntry lname
          (\<lambda>byHeadsign. setEntry hs (\<lambda>arr. orNew arr @ [t]) (orNew byHeadsign))
          (orNew byLine))
       obj"

definition normalizeTime :: "string option \<Rightarrow> string option" where
  "normalizeTime t =
     (if \<not> truthy t then None
      else (let s = trim (orEmpty t) in if s = [] then None else Some s))"

text \<open>Steps 1 and 3 of \<^verbatim>\<open>main\<close>: the stop-to-station map and the trip information.\<close>

definition stopToStation :: "row list \<Rightarrow> name_map" where
  "stopToStation stops =
     foldl (\<lambda>m r. let stopId = r ''stop_id''; parent = r ''parent_station''
                  in m(stopId := (if truthy parent then parent else stopId)))
       (\<lambda>_. None) stops"

definition tripInfo :: "name_map \<Rightarrow> row list \<Rightarrow> string option \<Rightarrow> (string \<times> string) option" where
  "tripInfo lineOf trips =
     foldl (\<lambda>m r. let tripId = r ''trip_id'';
                      lname = lineOf (r ''route_id'');
                      hs = trim (orEmpty (r ''trip_headsign''))
                  in if truthy tripId \<and> truthy lname \<and> hs \<noteq> [] then m(tripId := Some (orEmpty lname, hs))
                     else m)
       (\<lambda>_. None) trips"

text \<open>
  Step 4, the callback of the pass over \<^verbatim>\<open>stop_times\<close>. A property key that is
  \<^verbatim>\<open>undefined\<close> is written as the string \<open>undefined\<close>.
\<close>

definition keyString :: "string option \<Rightarrow> string" where
  "keyString v = (case v of None \<Rightarrow> ''undefined'' | Some s \<Rightarrow> s)"

definition stopTimeRow ::
  "name_map \<Rightarrow> (string option \<Rightarrow> (string \<times> string) option) \<Rightarrow> arrival_index \<Rightarrow> row \<Rightarrow> arrival_index" where
  "stopTimeRow stationOf infoOf out r =
     (let tripId = r ''trip_id''; stopId = r ''stop_id''; time = normalizeTime (r ''arrival_time'')
      in case time of
           None \<Rightarrow> out
         | Some t \<Rightarrow>
             (case infoOf tripId of
                None \<Rightarrow> out
              | Some info \<Rightarrow>
                  (let stationId = (if truthy (stationOf stopId) then stationOf stopId else stopId)
                   in pushTime out (keyString stationId) (fst info) (snd info) t)))"

text \<open>Step 5: every bucket is sorted and cut to its first 120 entries.\<close>

definition sortAndTrim :: "arrival_index \<Rightarrow> arrival_index" where
  "sortAndTrim out =
     map (\<lambda>(stationId, byLine).
            (stationId, map (\<lambda>(lname, byHeadsign).
               (lname, map (\<lambda>(hs, arr). (hs, take 120 (sort arr))) byHeadsign)) byLine)) out"

definition build_station_arrivals ::
  "string list \<Rightarrow> string list \<Rightarrow> string list \<Rightarrow> string list \<Rightarrow> arrival_index" where
  "build_station_arrivals stopsTxt routesTxt tripsTxt stopTimesTxt =
     (let stationOf = stopToStation (loadTable stopsTxt);
          lineOf = routeIdToLine (loadTable routesTxt);
          infoOf = tripInfo lineOf (loadTable tripsTxt);
          out = foldl (stopTimeRow stationOf infoOf) [] (loadTable stopTimesTxt)
      in sortAndTrim out)"

text \<open>All the buckets of an index.\<close>

definition buckets :: "arrival_index \<Rightarrow> string list list" where
  "buckets idx = concat (map (\<lambda>(stationId, byLine).
      concat (map (\<lambda>(lname, byHeadsign). map snd byHeadsign) byLine)) idx)"

section \<open>Route shapes (build\_route\_shapes)\<close>

text \<open>
  Step 2 of \<^verbatim>\<open>main\<close>: the \<^verbatim>\<open>Map\<close> \<^verbatim>\<open>counts\<close>, in insertion order, from the key
  \<^verbatim>\<open>`${route_id}|${dir}|${shape_id}`\<close> to the number of trips. A trip without a route
  id or a shape id is skipped; a missing or blank direction is \<open>0\<close>.
\<close>

definition bar :: char where
  "bar = CHR ''|''"

definition countTrip :: "(string \<times> nat) list \<Rightarrow> row \<Rightarrow> (string \<times> nat) list" where
  "countTrip counts t =
     (let route_id' = t ''route_id'';
          shape_id' = t ''shape_id'';
          direction_id' = trim (orEmpty (t ''direction_id''))
      in if \<not> truthy route_id' \<or> \<not> truthy shape_id' then counts
         else (let dir = (if direction_id' = [] then ''0'' else direction_id');
                   key = orEmpty route_id' @ bar # dir @ bar # orEmpty shape_id'
               in setEntry key (\<lambda>c. (case c of None \<Rightarrow> 0 | Some n \<Rightarrow> n) + 1) counts))"

text \<open>
  \<^verbatim>\<open>bestShapeByRouteDir\<close>: the key is split at the bars, the first two parts name the
  group, the third the shape; an entry replaces the group's entry only with a strictly
  higher count. A part that is missing is \<^verbatim>\<open>undefined\<close>.
\<close>

definition nth_opt :: "'a list \<Rightarrow> nat \<Rightarrow> 'a option" where
  "nth_opt xs i = (if i < length xs then Some (xs ! i) else None)"

definition routeDirOf :: "string \<Rightarrow> string" where
  "routeDirOf key =
     (let parts = split_on bar key
      in keyString (nth_opt parts 0) @ bar # keyString (nth_opt parts 1))"

definition shapeOf :: "string \<Rightarrow> string option" where
  "shapeOf key = nth_opt (split_on bar key) 2"

type_synonym best_shape = "string option \<times> nat"

definition pickBest :: "(string \<times> best_shape) list \<Rightarrow> string \<times> nat \<Rightarrow> (string \<times> best_shape) list" where
  "pickBest best entry =
     (let rd = routeDirOf (fst entry)
      in case map_of best rd of
           None \<Rightarrow> setEntry rd (\<lambda>_. (shapeOf (fst entry), snd entry)) best
         | Some existing \<Rightarrow>
             if snd entry > snd existing
             then setEntry rd (\<lambda>_. (shapeOf (fst entry), snd entry)) best
             else best)"

definition bestShapeByRouteDir :: "row list \<Rightarrow> (string \<times> best_shape) list" where
  "bestShapeByRouteDir trips = foldl pickBest [] (foldl countTrip [] trips)"

text \<open>
  Step 3: the points of the chosen shapes. \<^verbatim>\<open>Number(v)\<close> on a field is a parameter
  \<open>num\<close> of the model: the finite value, or \<open>None\<close> when \<^verbatim>\<open>Number.isFinite\<close> fails.
  The points of every shape are then sorted by sequence number (a stable sort on
  numbers).
\<close>

record shape_point =
  pt_seq :: real
  pt_lat :: real
  pt_lon :: real

definition addPoint ::
  "(string option \<Rightarrow> real option) \<Rightarrow> string option list \<Rightarrow> (string \<times> shape_point list) list \<Rightarrow> row
     \<Rightarrow> (string \<times> shape_point list) list" where
  "addPoint num chosenShapeIds shapePoints s =
     (let shape_id' = s ''shape_id''
      in if \<not> truthy shape_id' \<or> shape_id' \<notin> set chosenShapeIds then shapePoints
         else (case (num (s ''shape_pt_lat''), num (s ''shape_pt_lon''), num (s ''shape_pt_sequence'')) of
                 (Some la, Some lo, Some sq) \<Rightarrow>
                   setEntry (orEmpty shape_id')
                     (\<lambda>pts. orNew pts @ [\<lparr>pt_seq = sq, pt_lat = la, pt_lon = lo\<rparr>]) shapePoints
               | _ \<Rightarrow> shapePoints))"

definition shapePointsOf ::
  "(string option \<Rightarrow> real option) \<Rightarrow> string option list \<Rightarrow> row list \<Rightarrow> (string \<times> shape_point list) list" where
  "shapePointsOf num chosenShapeIds shapes =
     map (\<lambda>(sid, pts). (sid, sort_key pt_seq pts)) (foldl (addPoint num chosenShapeIds) [] shapes)"

text \<open>Step 4: one feature for each group whose shape has at least 2 points.\<close>

definition LINE_COLORS :: "(string \<times> string) list" where
  "LINE_COLORS =
     [(''1'', ''#EE352E''), (''2'', ''#EE352E''), (''3'', ''#EE352E''),
      (''4'', ''#00933C''), (''5'', ''#00933C''), (''6'', ''#00933C''),
      (''7'', ''#B933AD''),
      (''A'', ''#0039A6''), (''C'', ''#0039A6''), (''E'', ''#0039A6''),
      (''B'', ''#FF6319''), (''D'', ''#FF6319''), (''F'', ''#FF6319''), (''M'', ''#FF6319''),
      (''N'', ''#FCCC0A''), (''Q'', ''#FCCC0A''), (''R'', ''#FCCC0A''), (''W'', ''#FCCC0A''),
      (''J'', ''#996633''), (''Z'', ''#996633''),
      (''L'', ''#A7A9AC''), (''S'', ''#808183'')]"

record feature =
  coordinates :: "(real \<times> real) list"
  route_id :: "string option"
  route_short_name :: string
  direction_id :: "string option"
  shape_id :: "string option"
  color :: string
  trips_sampled :: nat

definition pointsFor :: "(string \<times> shape_point list) list \<Rightarrow> string option \<Rightarrow> shape_point list" where
  "pointsFor shapePoints sid =
     (case sid of None \<Rightarrow> [] | Some s \<Rightarrow> orNew (map_of shapePoints s))"

definition featureFor ::
  "name_map \<Rightarrow> (string \<times> shape_point list) list \<Rightarrow> string \<times> best_shape \<Rightarrow> feature option" where
  "featureFor routeIdToShort shapePoints entry =
     (let parts = split_on bar (fst entry);
          route_id' = nth_opt parts 0;
          dir = nth_opt parts 1;
          shape_id' = fst (snd entry);
          pts = pointsFor shapePoints shape_id'
      in if length pts < 2 then None
         else (let short = trim (keyString (if truthy (routeIdToShort route_id')
                                            then routeIdToShort route_id' else route_id'));
                   color' = (case map_of LINE_COLORS (toUpperCase short) of
                               None \<Rightarrow> ''#999999'' | Some c \<Rightarrow> c)
               in Some \<lparr>coordinates = map (\<lambda>p. (pt_lon p, pt_lat p)) pts,
                        route_id = route_id', route_short_name = short, direction_id = dir,
                        shape_id = shape_id', color = color', trips_sampled = snd (snd entry)\<rparr>))"

text \<open>
  The array \<^verbatim>\<open>features\<close> as the loop builds it, from the lines of the three files; the
  final \<^verbatim>\<open>sort\<close> permutes it.
\<close>

definition featuresOf ::
  "(string option \<Rightarrow> real option) \<Rightarrow> row list \<Rightarrow> row list \<Rightarrow> row list \<Rightarrow> feature list" where
  "featuresOf num routes trips shapes =
     (let routeIdToShort = routeIdToShort_route_shapes routes;
          best = bestShapeByRouteDir trips;
          chosenShapeIds = map (\<lambda>x. fst (snd x)) best;
          shapePoints = shapePointsOf num chosenShapeIds shapes
      in List.map_filter (featureFor routeIdToShort shapePoints) best)"

definition route_shape_features ::
  "(string option \<Rightarrow> real option) \<Rightarrow> string list \<Rightarrow> string list \<Rightarrow> string list \<Rightarrow> feature list" where
  "route_shape_features num routesTxt tripsTxt shapesTxt =
     featuresOf num (readGTFS routesTxt) (readGTFS tripsTxt) (readGTFS shapesTxt)"

text \<open>
  A conversion for the examples: it agrees with \<^verbatim>\<open>Number\<close> on the runs of decimal
  digits.
\<close>

definition digitsToNumber :: "string option \<Rightarrow> real option" where
  "digitsToNumber v =
     (case v of
        None \<Rightarrow> None
      | Some s \<Rightarrow> if s \<noteq> [] \<and> list_all isDigit s then Some (real_of_int (decimal s)) else None)"

subsection \<open>Vocabulary of the shape selection's properties\<close>

text \<open>
  A trip is usable when it has a route id and a shape id; its group is its route with its
  direction. \<open>tripCount\<close> is the number of usable trips of a group that reference a
  shape, \<open>validPoints\<close> the points of a shape whose three numbers are finite, in file
  order.
\<close>

definition usableTrip :: "row \<Rightarrow> bool" where
  "usableTrip t = (truthy (t ''route_id'') \<and> truthy (t ''shape_id''))"

definition tripRoute :: "row \<Rightarrow> string" where
  "tripRoute t = orEmpty (t ''route_id'')"

definition tripDir :: "row \<Rightarrow> string" where
  "tripDir t = (if trim (orEmpty (t ''direction_id'')) = [] then ''0''
                else trim (orEmpty (t ''direction_id'')))"

definition tripShape :: "row \<Rightarrow> string" where
  "tripShape t = orEmpty (t ''shape_id'')"

definition tripKey :: "row \<Rightarrow> string" where
  "tripKey t = tripRoute t @ bar # tripDir t @ bar # tripShape t"

definition tripCount :: "row list \<Rightarrow> string \<Rightarrow> string \<Rightarrow> string \<Rightarrow> nat" where
  "tripCount trips r d s =
     length (filter (\<lambda>t. usableTrip t \<and> tripRoute t = r \<and> tripDir t = d \<and> tripShape t = s) trips)"

definition validPoint :: "(string option \<Rightarrow> real option) \<Rightarrow> string \<Rightarrow> row \<Rightarrow> shape_point option" where
  "validPoint num sid s =
     (if s ''shape_id'' = Some sid then
        (case (num (s ''shape_pt_lat''), num (s ''shape_pt_lon''), num (s ''shape_pt_sequence'')) of
           (Some la, Some lo, Some sq) \<Rightarrow> Some \<lparr>pt_seq = sq, pt_lat = la, pt_lon = lo\<rparr>
         | _ \<Rightarrow> None)
      else None)"

definition validPoints :: "(string option \<Rightarrow> real option) \<Rightarrow> row list \<Rightarrow> string \<Rightarrow> shape_point list" where
  "validPoints num shapes sid = List.map_filter (validPoint num sid) shapes"

text \<open>The step of the single group \<open>rd\<close> in the loop that fills \<^verbatim>\<open>bestShapeByRouteDir\<close>.\<close>

definition better :: "best_shape option \<Rightarrow> string \<times> nat \<Rightarrow> best_shape option" where
  "better acc entry =
     (case acc of
        None \<Rightarrow> Some (shapeOf (fst entry), snd entry)
      | Some existing \<Rightarrow>
          if snd entry > snd existing then Some (shapeOf (fst entry), snd entry) else acc)"

section \<open>Facts about the primitives\<close>

lemma decimal_nonneg_aux:
  "0 \<le> acc \<Longrightarrow> \<forall>c\<in>set ds. isDigit c \<Longrightarrow> 0 \<le> foldl (\<lambda>a c. a * 10 + digitVal c) acc ds"
proof (induction ds arbitrary: acc)
  case Nil
  then show ?case by simp
next
  case (Cons d ds)
  have "0 \<le> digitVal d"
    using Cons.prems(2) by (simp add: isDigit_def digitVal_def less_eq_char_def)
  with Cons.prems(1) have "0 \<le> acc * 10 + digitVal d" by simp
  with Cons show ?case by simp
qed

lemma decimal_nonneg: "\<forall>c\<in>set ds. isDigit c \<Longrightarrow> 0 \<le> decimal ds"
  unfolding decimal_def by (rule decimal_nonneg_aux) simp_all

lemma isDigit_not_space: "isDigit c \<Longrightarrow> \<not> isWhiteSpace c"
  by (auto simp: isDigit_def isWhiteSpace_def less_eq_char_def)

lemma isDigit_not_sign: "isDigit c \<Longrightarrow> c \<noteq> CHR ''-'' \<and> c \<noteq> CHR ''+'' \<and> c \<noteq> CHR '':''"
  by (auto simp: isDigit_def less_eq_char_def)

lemma parseInt_digits:
  assumes "ds \<noteq> []" and "\<forall>c\<in>set ds. isDigit c"
  shows "parseInt ds = Some (decimal ds)"
proof -
  obtain d r where ds: "ds = d # r" using assms(1) by (cases ds) auto
  have d: "isDigit d" using assms(2) ds by simp
  have dw: "dropWhile isWhiteSpace ds = ds"
    using d ds by (simp add: isDigit_not_space)
  show ?thesis
    unfolding parseInt_def dw using d assms(2) isDigit_not_sign[OF d]
    by (simp add: Let_def ds takeWhile_eq_all_conv[THEN iffD2])
qed

lemma split_on_ne: "split_on sep s \<noteq> []"
  by (induction s) (auto split: list.splits)

lemma split_on_no_sep: "sep \<notin> set s \<Longrightarrow> split_on sep s = [s]"
  by (induction s) auto

lemma split_on_append:
  "sep \<notin> set a \<Longrightarrow> split_on sep (a @ sep # b) = a # split_on sep b"
  by (induction a) auto

lemma timeToSeconds_clock:
  assumes "clockField hs" "clockField ms" "clockField ss"
  shows "timeToSecondsSinceMidnight (hs @ CHR '':'' # ms @ CHR '':'' # ss)
           = Some (decimal hs * 3600 + decimal ms * 60 + decimal ss)"
proof -
  have nc: "CHR '':'' \<notin> set hs" "CHR '':'' \<notin> set ms" "CHR '':'' \<notin> set ss"
    using assms isDigit_not_sign by (auto simp: clockField_def list_all_iff)
  have sp: "split_on CHR '':'' (hs @ CHR '':'' # ms @ CHR '':'' # ss) = [hs, ms, ss]"
    using nc by (simp add: split_on_append split_on_no_sep)
  have p: "parseInt hs = Some (decimal hs)" "parseInt ms = Some (decimal ms)"
      "parseInt ss = Some (decimal ss)"
    using assms by (simp_all add: clockField_def list_all_iff parseInt_digits)
  show ?thesis
    unfolding timeToSecondsSinceMidnight_def sp by (simp add: p nth_num_def)
qed

lemma clock_raw_nonneg:
  assumes "clockField hs" "clockField ms" "clockField ss"
  shows "0 \<le> decimal hs * 3600 + decimal ms * 60 + decimal ss"
proof -
  have "0 \<le> decimal hs" "0 \<le> decimal ms" "0 \<le> decimal ss"
    using assms by (simp_all add: clockField_def list_all_iff decimal_nonneg)
  then show ?thesis by simp
qed

lemma js_rem_nonneg: "0 \<le> a \<Longrightarrow> 0 < b \<Longrightarrow> js_rem a b = a mod b"
  by (cases "a = 0") (simp_all add: js_rem_def)

lemma eta_2510: "etaSecondsFromGTFS 0 ''25:10:00'' = Some 90600"
  by (simp add: etaSecondsFromGTFS_def timeToSecondsSinceMidnight_def parseInt_def
      isWhiteSpace_def isDigit_def less_eq_char_def decimal_def digitVal_def nth_num_def
      js_rem_def Let_def)

lemma eta_0759: "etaSecondsFromGTFS 28800 ''07:59:00'' = Some 86340"
  by (simp add: etaSecondsFromGTFS_def timeToSecondsSinceMidnight_def parseInt_def
      isWhiteSpace_def isDigit_def less_eq_char_def decimal_def digitVal_def nth_num_def
      js_rem_def Let_def)

section \<open>Facts about the arrival estimator\<close>

lemma filter_nonNegativeEtas:
  "filter (\<lambda>x. snd x \<le> MAX_SHOW_MIN * 60) (nonNegativeEtas nowSec tms) = eligible nowSec tms"
  by (induction tms)
     (auto simp: nonNegativeEtas_def eligible_def List.map_filter_simps MAX_SHOW_MIN_def
           split: option.splits)

lemma clockOf_scheduled: "clockOf (scheduledArrival x) = x"
  by (simp add: clockOf_def scheduledArrival_def)

lemma map_clockOf_upcoming:
  "map clockOf (upcomingScheduled nowSec tms) = take 5 (sort_key snd (eligible nowSec tms))"
  by (simp add: upcomingScheduled_def filter_nonNegativeEtas o_def clockOf_scheduled)

lemma etaSec_scheduled: "etaSec (scheduledArrival x) = snd x"
  by (simp add: scheduledArrival_def)

lemma map_etaSec_upcoming:
  "map etaSec (upcomingScheduled nowSec tms) = map snd (take 5 (sort_key snd (eligible nowSec tms)))"
  by (simp add: upcomingScheduled_def filter_nonNegativeEtas o_def etaSec_scheduled)

lemma sorted_take_drop:
  assumes "sorted (map f xs)"
  shows "\<forall>x\<in>set (take n xs). \<forall>y\<in>set (drop n xs). f x \<le> f y"
proof -
  have "sorted (map f (take n xs) @ map f (drop n xs))"
    using assms by (simp flip: map_append)
  then show ?thesis by (auto simp: sorted_append)
qed

lemma eligible_set:
  "(t, e) \<in> set (eligible nowSec tms) \<longleftrightarrow>
     t \<in> set tms \<and> etaSecondsFromGTFS nowSec t = Some e \<and> 0 \<le> e \<and> e \<le> 5400"
  by (auto simp: eligible_def split: option.splits)

lemma sorted_upcoming: "sorted (map etaSec (upcomingScheduled nowSec tms))"
  unfolding map_etaSec_upcoming take_map[symmetric]
  by (simp add: sorted_wrt_take)

lemma length_upcoming:
  "length (upcomingScheduled nowSec tms) = min 5 (length (eligible nowSec tms))"
  by (simp add: upcomingScheduled_def filter_nonNegativeEtas)

lemma upcoming_entry:
  assumes "u \<in> set (upcomingScheduled nowSec tms)"
  shows "source u = Scheduled \<and> etaLabel u = fmtEtaMinutes (etaSec u) \<and>
         (\<exists>t\<in>set tms. timeStr u = Some t \<and> etaSecondsFromGTFS nowSec t = Some (etaSec u)) \<and>
         0 \<le> etaSec u \<and> etaSec u \<le> 5400"
proof -
  from assms obtain x where x: "x \<in> set (take 5 (sort_key snd (eligible nowSec tms)))"
    and u: "u = scheduledArrival x"
    by (auto simp: upcomingScheduled_def filter_nonNegativeEtas)
  from x have "x \<in> set (eligible nowSec tms)" by (auto dest: in_set_takeD)
  then have "fst x \<in> set tms \<and> etaSecondsFromGTFS nowSec (fst x) = Some (snd x) \<and> 0 \<le> snd x \<and> snd x \<le> 5400"
    using eligible_set[of "fst x" "snd x"] by simp
  then show ?thesis by (auto simp: u scheduledArrival_def)
qed

lemma upcoming_mset:
  "mset (map clockOf (upcomingScheduled nowSec tms)) \<subseteq># mset (eligible nowSec tms)"
proof -
  let ?s = "sort_key snd (eligible nowSec tms)"
  have "mset (take 5 ?s) + mset (drop 5 ?s) = mset ?s"
    by (metis append_take_drop_id mset_append)
  then have "mset (take 5 ?s) \<subseteq># mset (eligible nowSec tms)"
    by (metis mset_sort mset_subset_eq_add_left)
  then show ?thesis by (simp add: map_clockOf_upcoming)
qed

lemma upcoming_smallest:
  assumes "x \<in># mset (eligible nowSec tms) - mset (map clockOf (upcomingScheduled nowSec tms))"
    and "u \<in> set (upcomingScheduled nowSec tms)"
  shows "etaSec u \<le> snd x"
proof -
  let ?s = "sort_key snd (eligible nowSec tms)"
  have "mset (take 5 ?s) + mset (drop 5 ?s) = mset (eligible nowSec tms)"
    by (metis append_take_drop_id mset_append mset_sort)
  then have "mset (eligible nowSec tms) - mset (take 5 ?s) = mset (drop 5 ?s)"
    by (metis add_diff_cancel_left')
  with assms(1) have x: "x \<in> set (drop 5 ?s)" by (simp add: map_clockOf_upcoming)
  from assms(2) obtain y where y: "y \<in> set (take 5 ?s)" and u: "u = scheduledArrival y"
    by (auto simp: upcomingScheduled_def filter_nonNegativeEtas)
  have "sorted (map snd ?s)" by simp
  from sorted_take_drop[OF this, of 5] x y have "snd y \<le> snd x" by blast
  then show ?thesis by (simp add: u scheduledArrival_def)
qed

lemma hasSoon_iff: "hasSoon ups \<longleftrightarrow> (\<exists>u\<in>set ups. etaSec u \<le> 1200)"
  by (simp add: hasSoon_def list_ex_iff SOON_WINDOW_MIN_def)

lemma groupFor_soon:
  assumes "hasSoon (upcomingScheduled nowSec tms)"
  shows "groupFor nowSec rnd k lname hs tms =
           (Some \<lparr>line = toUpperCase lname, headsign = hs,
                  upcoming = take 4 (upcomingScheduled nowSec tms)\<rparr>, k)"
proof -
  have "upcomingScheduled nowSec tms \<noteq> []"
    using assms by (auto simp: hasSoon_def)
  then show ?thesis using assms by (simp add: groupFor_def Let_def)
qed

lemma noise_bounds:
  assumes "0 \<le> r" "r < 1"
  shows "- 2 \<le> noise 2 r" "noise 2 r \<le> 2"
proof -
  have "- 2 \<le> r * 5 - 2" using assms by simp
  then show "- 2 \<le> noise 2 r" unfolding noise_def by (simp add: le_floor_iff)
  have "r * 5 - 2 < 3" using assms by simp
  then show "noise 2 r \<le> 2" unfolding noise_def by (simp add: floor_le_iff)
qed

lemma simulateEtas_length: "length (simulateEtas rnd k base cnt jitter step) = cnt"
  by (simp add: simulateEtas_def)

lemma simulateEtas_ge1: "m \<in> set (simulateEtas rnd k base cnt jitter step) \<Longrightarrow> 1 \<le> m"
  by (auto simp: simulateEtas_def)

lemma simulateEtas_sorted: "sorted (simulateEtas rnd k base cnt jitter step)"
  using sorted_sort_key[of "\<lambda>x. x"] by (simp add: simulateEtas_def)

lemma simulateEtas_le20:
  assumes "\<forall>i. 0 \<le> rnd i \<and> rnd i < 1" and "m \<in> set (simulateEtas rnd k 6 3 2 6)"
  shows "m \<le> 20"
proof -
  from assms(2) obtain i where i: "i < 3" and m: "m = max 1 (6 + int i * 6 + noise 2 (rnd (k + i)))"
    by (auto simp: simulateEtas_def)
  have "noise 2 (rnd (k + i)) \<le> 2" using assms(1) noise_bounds(2) by blast
  with i m show ?thesis by simp
qed

lemma not_soon_late:
  assumes "\<not> hasSoon ups" "u \<in> set ups"
  shows "1200 < etaSec u"
  using assms by (auto simp: hasSoon_iff)

lemma groupFor_not_soon:
  assumes "\<not> hasSoon (upcomingScheduled nowSec tms)"
  shows "groupFor nowSec rnd k lname hs tms =
           (Some \<lparr>line = toUpperCase lname, headsign = hs,
                  upcoming = map estimatedArrival (simulateEtas rnd k 6 3 2 6) @
                    (case upcomingScheduled nowSec tms of [] \<Rightarrow> [] | u # _ \<Rightarrow> [u])\<rparr>, k + 3)"
  using assms by (simp add: groupFor_def Let_def simulateEtas_length split: list.splits)

lemma sorted_estimated:
  "sorted (map etaSec (map estimatedArrival (simulateEtas rnd k base cnt jitter step)))"
proof -
  have "map etaSec (map estimatedArrival ms) = map (\<lambda>m. m * 60) ms" for ms
    by (simp add: estimatedArrival_def)
  moreover have "sorted (map (\<lambda>m. m * 60) ms)" if "sorted ms" for ms :: "int list"
    using that by (induction ms) auto
  ultimately show ?thesis using simulateEtas_sorted by metis
qed

lemma fallback_sorted:
  assumes rnd: "\<forall>i. 0 \<le> rnd i \<and> rnd i < 1"
    and ns: "\<not> hasSoon ups"
  shows "sorted (map etaSec (map estimatedArrival (simulateEtas rnd k 6 3 2 6) @
           (case ups of [] \<Rightarrow> [] | u # _ \<Rightarrow> [u])))"
proof (cases ups)
  case Nil
  then show ?thesis using sorted_estimated by simp
next
  case (Cons u rest)
  have late: "1200 < etaSec u" using ns Cons not_soon_late by simp
  have "etaSec a \<le> etaSec u" if "a \<in> set (map estimatedArrival (simulateEtas rnd k 6 3 2 6))" for a
  proof -
    from that obtain m where m: "m \<in> set (simulateEtas rnd k 6 3 2 6)" and a: "a = estimatedArrival m"
      by auto
    have "m \<le> 20" using simulateEtas_le20[OF rnd m] .
    then show ?thesis using late by (simp add: a estimatedArrival_def)
  qed
  then show ?thesis using Cons sorted_estimated[of rnd k 6 3 2 6]
    by (auto simp: sorted_append)
qed

lemma upcoming_hd_least:
  assumes "u \<in> set (upcomingScheduled nowSec tms)"
  shows "etaSec (hd (upcomingScheduled nowSec tms)) \<le> etaSec u"
proof -
  obtain a rest where c: "upcomingScheduled nowSec tms = a # rest"
    using assms by (cases "upcomingScheduled nowSec tms") auto
  have "sorted (map etaSec (a # rest))" using sorted_upcoming[of nowSec tms] c by simp
  then show ?thesis using assms c by auto
qed

lemma groupFor_total:
  "\<exists>g k'. groupFor nowSec rnd k lname hs tms = (Some g, k')
     \<and> groupKey g = (toUpperCase lname, hs) \<and> wellSized g"
proof (cases "hasSoon (upcomingScheduled nowSec tms)")
  case True
  then have ne: "upcomingScheduled nowSec tms \<noteq> []" by (auto simp: hasSoon_def)
  show ?thesis
    unfolding groupFor_soon[OF True] using ne
    by (cases "upcomingScheduled nowSec tms") (simp_all add: groupKey_def wellSized_def)
next
  case False
  show ?thesis
    unfolding groupFor_not_soon[OF False]
    by (simp add: groupKey_def wellSized_def simulateEtas_length split: list.splits)
qed

lemma headsignLoop_groups:
  "\<exists>new k'. headsignLoop nowSec rnd lname byHeadsign (groups, k) = (groups @ new, k')
     \<and> map groupKey new = map (\<lambda>(hs, tms). (toUpperCase lname, hs)) byHeadsign
     \<and> list_all wellSized new"
proof (induction byHeadsign arbitrary: groups k)
  case Nil
  then show ?case by simp
next
  case (Cons entry rest)
  obtain hs tms where e: "entry = (hs, tms)" by (cases entry)
  obtain g k1 where g: "groupFor nowSec rnd k lname hs tms = (Some g, k1)"
    "groupKey g = (toUpperCase lname, hs)" "wellSized g"
    using groupFor_total by blast
  obtain new k' where n: "headsignLoop nowSec rnd lname rest (groups @ [g], k1) = ((groups @ [g]) @ new, k')"
    "map groupKey new = map (\<lambda>(hs, tms). (toUpperCase lname, hs)) rest" "list_all wellSized new"
    using Cons.IH by blast
  have "headsignLoop nowSec rnd lname (entry # rest) (groups, k) = (groups @ (g # new), k')"
    using g(1) n(1) by (simp add: e)
  moreover have "map groupKey (g # new) = map (\<lambda>(hs, tms). (toUpperCase lname, hs)) (entry # rest)"
    using g(2) n(2) by (simp add: e)
  moreover have "list_all wellSized (g # new)" using g(3) n(3) by simp
  ultimately show ?case by blast
qed

lemma lineLoop_groups:
  "\<exists>new k'. lineLoop nowSec rnd stationData (groups, k) = (groups @ new, k')
     \<and> map groupKey new = map shownKey (stationKeys stationData)
     \<and> list_all wellSized new"
proof (induction stationData arbitrary: groups k)
  case Nil
  then show ?case by (simp add: stationKeys_def)
next
  case (Cons entry rest)
  obtain lname byHeadsign where e: "entry = (lname, byHeadsign)" by (cases entry)
  obtain new1 k1 where h: "headsignLoop nowSec rnd lname byHeadsign (groups, k) = (groups @ new1, k1)"
    "map groupKey new1 = map (\<lambda>(hs, tms). (toUpperCase lname, hs)) byHeadsign" "list_all wellSized new1"
    using headsignLoop_groups by blast
  obtain new2 k' where n: "lineLoop nowSec rnd rest (groups @ new1, k1) = ((groups @ new1) @ new2, k')"
    "map groupKey new2 = map shownKey (stationKeys rest)" "list_all wellSized new2"
    using Cons.IH by blast
  have "lineLoop nowSec rnd (entry # rest) (groups, k) = (groups @ (new1 @ new2), k')"
    using h(1) n(1) by (simp add: e)
  moreover have "map groupKey (new1 @ new2) = map shownKey (stationKeys (entry # rest))"
    using h(2) n(2) by (simp add: e stationKeys_def shownKey_def case_prod_unfold o_def)
  moreover have "list_all wellSized (new1 @ new2)" using h(3) n(3) by simp
  ultimately show ?case by blast
qed

lemma collectGroups_keys:
  "map groupKey (collectGroups nowSec rnd k stationData) = map shownKey (stationKeys stationData)"
  "list_all wellSized (collectGroups nowSec rnd k stationData)"
  using lineLoop_groups[of nowSec rnd stationData "[]" k]
  by (auto simp: collectGroups_def)

lemma nextArrivals_found:
  "map_of arrivalsByDest stopId = Some stationData \<Longrightarrow>
     nextArrivals arrivalsByDest (Some stopId) nowSec rnd k
       = sort_key firstEta (collectGroups nowSec rnd k stationData)"
  by (simp add: nextArrivals_def)

lemmas eta_eval = etaSecondsFromGTFS_def timeToSecondsSinceMidnight_def parseInt_def
      isWhiteSpace_def isDigit_def less_eq_char_def decimal_def digitVal_def nth_num_def
      js_rem_def Let_def

lemma eta_samples:
  "etaSecondsFromGTFS 28800 ''08:30:00'' = Some 1800"
  "etaSecondsFromGTFS 28800 ''08:05:00'' = Some 300"
  "etaSecondsFromGTFS 28800 ''09:45:00'' = Some 6300"
  "etaSecondsFromGTFS 28800 ''soon'' = None"
  by (simp_all add: eta_eval)

lemma sim_half: "simulateEtas (\<lambda>i. 1 / 2) 0 6 3 2 6 = [6, 12, 18]"
proof -
  have n: "noise 2 (1 / 2) = 0" by (simp add: noise_def)
  have u: "[0..<3] = [0, 1, 2]" by (simp add: upt_rec)
  show ?thesis by (simp add: simulateEtas_def n u)
qed

section \<open>Facts about the nearest-stops query\<close>

lemma scaled_bound:
  fixes w c :: real
  assumes "0 \<le> w" "- 1 \<le> c" "c \<le> 1"
  shows "- w \<le> w * c" "w * c \<le> w"
  using mult_left_mono[OF assms(2) assms(1)] mult_left_mono[OF assms(3) assms(1)]
  by simp_all

lemma hav_range:
  fixes a b s :: real
  defines "x \<equiv> (sin ((a - b) / 2))\<^sup>2 + cos a * cos b * s"
  assumes "0 \<le> s" "s \<le> 1"
  shows "0 \<le> x \<and> x \<le> 1"
proof -
  have c: "cos a * cos b = (cos (a - b) + cos (a + b)) / 2"
    by (simp add: cos_diff cos_add)
  obtain t where t: "a - b = 2 * t" "(a - b) / 2 = t"
    by (metis mult_2 field_sum_of_halves)
  have "cos (a - b) = 1 - 2 * (sin ((a - b) / 2))\<^sup>2"
    unfolding t using cos_double_sin[of t] by simp
  then have h: "(sin ((a - b) / 2))\<^sup>2 = (1 - cos (a - b)) / 2" by simp
  have x: "x = (1 - (1 - s) * cos (a - b) + s * cos (a + b)) / 2"
    unfolding x_def c h by (simp add: field_simps)
  have 1: "- (1 - s) \<le> (1 - s) * cos (a - b)" "(1 - s) * cos (a - b) \<le> 1 - s"
    using scaled_bound[of "1 - s" "cos (a - b)"] assms(3) by simp_all
  have 2: "- s \<le> s * cos (a + b)" "s * cos (a + b) \<le> s"
    using scaled_bound[of s "cos (a + b)"] assms(2) by simp_all
  show ?thesis unfolding x using 1 2 by simp
qed

lemma atan2_arcsin:
  assumes "0 \<le> x" "x \<le> 1"
  shows "atan2 (sqrt x) (sqrt (1 - x)) = arcsin (sqrt x)"
proof (cases "x = 1")
  case True
  then show ?thesis by (simp add: atan2_def)
next
  case False
  then have lt: "x < 1" using assms by simp
  then have p: "0 < sqrt (1 - x)" by simp
  have s: "- 1 < sqrt x" "sqrt x < 1"
    using assms lt by (simp_all add: order.strict_trans2[of "-1" 0])
  have "arcsin (sqrt x) = arctan (sqrt x / sqrt (1 - (sqrt x)\<^sup>2))"
    using arcsin_arctan[OF s] .
  also have "(sqrt x)\<^sup>2 = x" using assms by simp
  finally show ?thesis using p by (simp add: atan2_def)
qed

lemma toRad_diff: "toRad (b - a) = toRad b - toRad a"
  by (simp add: toRad_def algebra_simps diff_divide_distrib)

lemma distanceMeters_haversine:
  "distanceMeters aLat aLon (Some bLat) (Some bLon) =
     Some (2 * 6371000 * arcsin (sqrt (haversine (toRad bLat - toRad aLat)
             + cos (toRad aLat) * cos (toRad bLat) * haversine (toRad bLon - toRad aLon))))"
proof -
  let ?s = "(sin ((toRad bLon - toRad aLon) / 2))\<^sup>2"
  let ?x = "(sin ((toRad bLat - toRad aLat) / 2))\<^sup>2 + cos (toRad bLat) * cos (toRad aLat) * ?s"
  have s: "0 \<le> ?s" "?s \<le> 1"
    by (simp_all add: abs_square_le_1 abs_sin_le_one)
  have r: "0 \<le> ?x \<and> ?x \<le> 1" using hav_range[OF s] .
  have "atan2 (sqrt ?x) (sqrt (1 - ?x)) = arcsin (sqrt ?x)"
    using r by (simp add: atan2_arcsin)
  then show ?thesis
    by (simp add: distanceMeters_def Let_def toRad_diff haversine_def mult.commute[of "cos (toRad aLat)"])
qed

lemma distanceMeters_nan:
  "bLatN = None \<or> bLonN = None \<Longrightarrow> distanceMeters aLat aLon bLatN bLonN = None"
  by (auto simp: distanceMeters_def split: option.splits)

lemma mset_insort_cmp: "mset (insort_cmp cmp x ys) = add_mset x (mset ys)"
  by (induction ys) auto

lemma mset_js_sort: "mset (js_sort cmp xs) = mset xs"
  by (induction xs) (simp_all add: js_sort_def mset_insort_cmp)

lemma set_js_sort: "set (js_sort cmp xs) = set xs"
  using mset_js_sort[of cmp xs] by (metis set_mset_mset)

lemma length_js_sort: "length (js_sort cmp xs) = length xs"
  using mset_js_sort[of cmp xs] by (metis size_mset)

lemma insort_cmp_key:
  assumes "distM x \<noteq> None" "\<forall>z\<in>set ys. distM z \<noteq> None"
  shows "insort_cmp byDistM x ys = insort_key (\<lambda>z. the (distM z)) x ys"
  using assms by (induction ys) (auto simp: sortCompare_def byDistM_def)

lemma js_sort_key:
  assumes "\<forall>z\<in>set xs. distM z \<noteq> None"
  shows "js_sort byDistM xs = sort_key (\<lambda>z. the (distM z)) xs"
  using assms
proof (induction xs)
  case Nil
  then show ?case by (simp add: js_sort_def)
next
  case (Cons x xs)
  then have ih: "js_sort byDistM xs = sort_key (\<lambda>z. the (distM z)) xs" by simp
  have "js_sort byDistM (x # xs) = insort_cmp byDistM x (js_sort byDistM xs)"
    by (simp add: js_sort_def)
  also have "\<dots> = insort_key (\<lambda>z. the (distM z)) x (js_sort byDistM xs)"
    using Cons.prems by (intro insort_cmp_key) (simp_all add: set_js_sort)
  finally show ?case by (simp add: ih)
qed

lemma nearestOf_length: "length (nearestOf mapped) \<le> 12"
  by (simp add: nearestOf_def Let_def)

lemma nearestOf_within:
  assumes "\<exists>w\<in>set mapped. withinRadius w" "r \<in> set (nearestOf mapped)"
  shows "withinRadius r"
proof -
  have "filter withinRadius (js_sort byDistM mapped) \<noteq> []"
    using assms(1) by (simp add: filter_empty_conv set_js_sort)
  then have "r \<in> set (take 12 (filter withinRadius (js_sort byDistM mapped)))"
    using assms(2) by (simp add: nearestOf_def Let_def)
  then show ?thesis by (auto dest: in_set_takeD)
qed

lemma sorted_filter_take:
  assumes "sorted (map f xs)"
  shows "sorted (map f (take n (filter P xs)))"
proof -
  have "sorted (map f (filter P xs))" using assms by (rule sorted_filter)
  then show ?thesis by (simp add: take_map[symmetric] sorted_wrt_take)
qed

lemma nearestOf_sorted:
  assumes "\<forall>z\<in>set mapped. distM z \<noteq> None"
  shows "sorted (map (\<lambda>z. the (distM z)) (nearestOf mapped))"
proof -
  let ?k = "\<lambda>z. the (distM z)"
  have s: "sorted (map ?k (js_sort byDistM mapped))"
    unfolding js_sort_key[OF assms] by simp
  have "sorted (map ?k (take 12 (filter withinRadius (js_sort byDistM mapped))))"
    using s by (rule sorted_filter_take)
  moreover have "sorted (map ?k (take 12 (js_sort byDistM mapped)))"
    using s by (simp add: take_map[symmetric] sorted_wrt_take)
  ultimately show ?thesis by (simp add: nearestOf_def Let_def)
qed

lemma nearestOf_sample:
  assumes "mset (map distM mapped) = {#Some 100, Some 500, Some 1300, Some 2000#}"
  shows "map distM (nearestOf mapped) = [Some 100, Some 500]"
proof -
  let ?k = "\<lambda>z. the (distM z)"
  let ?w = "js_sort byDistM mapped"
  have "set_mset (mset (map distM mapped)) = {Some 100, Some 500, Some 1300, Some 2000}"
    by (simp only: assms) simp
  then have "set (map distM mapped) = {Some 100, Some 500, Some 1300, Some 2000}"
    by (simp only: set_mset_mset)
  then have some: "\<forall>z\<in>set mapped. distM z \<noteq> None" by auto
  then have ds: "map distM xs = map Some (map ?k xs)" if "set xs \<subseteq> set mapped" for xs
    using that by (induction xs) auto
  have "mset (map ?k mapped) = image_mset the (mset (map distM mapped))"
    by (simp add: multiset.map_comp o_def)
  then have m: "mset (map ?k mapped) = mset [100, 500, 1300, 2000]"
    unfolding assms by simp
  have w: "?w = sort_key ?k mapped" using some by (rule js_sort_key)
  have "mset (map ?k ?w) = mset [100, 500, 1300, 2000]"
    unfolding w using m by simp
  moreover have "sorted (map ?k ?w)" unfolding w by simp
  ultimately have "sort [100, 500, 1300, 2000] = map ?k ?w"
    by (intro properties_for_sort) simp_all
  then have keys: "map ?k ?w = [100, 500, 1300, 2000]" by simp
  have wr: "withinRadius z \<longleftrightarrow> ?k z \<le> 1200" if "z \<in> set mapped" for z
    using that some by (auto simp: withinRadius_def)
  have "map ?k (filter withinRadius ?w) = filter (\<lambda>d. d \<le> 1200) (map ?k ?w)"
    unfolding filter_map o_def
    by (intro arg_cong[of _ _ "map ?k"] filter_cong) (simp_all add: wr set_js_sort)
  then have f: "map ?k (filter withinRadius ?w) = [100, 500]" unfolding keys by simp
  then have ne: "filter withinRadius ?w \<noteq> []" by auto
  have "length (map ?k (filter withinRadius ?w)) = 2" by (simp only: f) simp
  then have len: "length (filter withinRadius ?w) = 2" by (simp only: length_map)
  have n: "nearestOf mapped = filter withinRadius ?w"
    using ne len by (simp add: nearestOf_def Let_def)
  have "set (nearestOf mapped) \<subseteq> set mapped" unfolding n by (auto simp: set_js_sort)
  from ds[OF this] show ?thesis unfolding n using f by simp
qed

lemma equator_distance:
  assumes "0 \<le> d" "d \<le> 6371000 * pi"
  shows "distanceMeters 0 0 (Some 0) (Some (d * 180 / (6371000 * pi))) = Some d"
proof -
  let ?t = "d / 6371000"
  have tr: "toRad (d * 180 / (6371000 * pi)) = ?t"
    by (simp add: toRad_def)
  have r: "0 \<le> ?t / 2" "?t / 2 \<le> pi / 2" using assms by simp_all
  then have s0: "0 \<le> sin (?t / 2)"
    by (intro sin_ge_zero) (use pi_ge_zero in linarith)+
  have "arcsin (sqrt (haversine ?t)) = arcsin (sin (?t / 2))"
    using s0 by (simp add: haversine_def)
  also have "\<dots> = ?t / 2"
    using r by (intro arcsin_sin) (use pi_ge_zero in linarith)+
  finally have a: "arcsin (sqrt (haversine ?t)) = ?t / 2" .
  have z: "toRad 0 = 0" "haversine 0 = 0" by (simp_all add: toRad_def haversine_def)
  show ?thesis
    unfolding distanceMeters_haversine tr by (simp add: a z)
qed

lemma attachDist_equator:
  assumes "0 \<le> d" "d \<le> 6371000 * pi"
  shows "attachDist (0, 0) (equatorStop sid d) =
    \<lparr>stop_id = sid, name = sid, lat = Numeric 0, lon = Numeric (d * 180 / (6371000 * pi)),
     distM = Some d\<rparr>"
  using equator_distance[OF assms] by (simp add: attachDist_def equatorStop_def)

lemma pi_bound: "2000 \<le> 6371000 * pi"
  using pi_ge_two by simp

lemma withinRadius_iff: "withinRadius w \<longleftrightarrow> (\<exists>d. distM w = Some d \<and> d \<le> 1200)"
  by (auto simp: withinRadius_def split: option.splits)

lemma nearbyStops_some:
  "nearbyStops (Some loc) stops = nearestOf (map (attachDist loc) stops)"
  by (simp add: nearbyStops_def)

lemma attachDist_numeric:
  assumes "toNumber (lat s) = Some bLat" "toNumber (lon s) = Some bLon"
  shows "distM (attachDist loc s) =
     Some (2 * 6371000 * arcsin (sqrt (haversine (toRad bLat - toRad (fst loc))
             + cos (toRad (fst loc)) * cos (toRad bLat) * haversine (toRad bLon - toRad (snd loc)))))"
  using assms by (simp add: attachDist_def distanceMeters_haversine)

lemma attachDist_some:
  "toNumber (lat s) \<noteq> None \<Longrightarrow> toNumber (lon s) \<noteq> None \<Longrightarrow> distM (attachDist loc s) \<noteq> None"
  by (auto simp: attachDist_def distanceMeters_def Let_def)

lemma equator_attach:
  "attachDist (0, 0) (equatorStop sid 100) = \<lparr>stop_id = sid, name = sid, lat = Numeric 0,
      lon = Numeric (100 * 180 / (6371000 * pi)), distM = Some 100\<rparr>"
  "attachDist (0, 0) (equatorStop sid 500) = \<lparr>stop_id = sid, name = sid, lat = Numeric 0,
      lon = Numeric (500 * 180 / (6371000 * pi)), distM = Some 500\<rparr>"
  "attachDist (0, 0) (equatorStop sid 1300) = \<lparr>stop_id = sid, name = sid, lat = Numeric 0,
      lon = Numeric (1300 * 180 / (6371000 * pi)), distM = Some 1300\<rparr>"
  "attachDist (0, 0) (equatorStop sid 2000) = \<lparr>stop_id = sid, name = sid, lat = Numeric 0,
      lon = Numeric (2000 * 180 / (6371000 * pi)), distM = Some 2000\<rparr>"
  using pi_ge_two by (simp_all add: attachDist_equator)

section \<open>Facts about the tabular readers\<close>

lemma escapeQuotes_Cons:
  "escapeQuotes (c # v) = (if c = dquote then dquote # dquote # escapeQuotes v else c # escapeQuotes v)"
  by (simp add: escapeQuotes_def)

lemma escapeQuotes_Nil: "escapeQuotes [] = []"
  by (simp add: escapeQuotes_def)

lemma dquote_neq_comma: "dquote \<noteq> comma"
  by (simp add: dquote_def comma_def)

text \<open>One step of each loop, whatever follows.\<close>

lemma split_step_quote:
  "splitCsvLine_loop (dquote # rest) out cur inQ = splitCsvLine_loop rest out cur (\<not> inQ)"
  by simp

lemma split_step_other:
  "ch \<noteq> dquote \<Longrightarrow> splitCsvLine_loop (ch # rest) out cur inQ =
     (if ch = comma \<and> \<not> inQ then splitCsvLine_loop rest (out @ [cur]) [] inQ
      else splitCsvLine_loop rest out (cur @ [ch]) inQ)"
  by simp

lemma line_step_other:
  "ch \<noteq> dquote \<Longrightarrow> parseCSVLine_loop (ch # rest) out cur inQ =
     (if ch = comma \<and> \<not> inQ then parseCSVLine_loop rest (out @ [cur]) [] inQ
      else parseCSVLine_loop rest out (cur @ [ch]) inQ)"
  by (cases rest) simp_all

lemma line_step_open:
  "parseCSVLine_loop (dquote # rest) out cur False = parseCSVLine_loop rest out cur True"
  by (cases rest) simp_all

lemma line_step_escaped:
  "parseCSVLine_loop (dquote # dquote # rest) out cur True = parseCSVLine_loop rest out (cur @ [dquote]) True"
  by simp

lemma line_step_close:
  "rest = [] \<or> hd rest \<noteq> dquote \<Longrightarrow>
     parseCSVLine_loop (dquote # rest) out cur True = parseCSVLine_loop rest out cur False"
  by (cases rest) auto

lemma text_step_other:
  "ch \<noteq> dquote \<Longrightarrow> \<not> isLineBreak ch \<Longrightarrow> parseCSV_loop (ch # rest) rows row cur inQ =
     (if ch = comma \<and> \<not> inQ then parseCSV_loop rest rows (row @ [cur]) [] inQ
      else parseCSV_loop rest rows row (cur @ [ch]) inQ)"
  by (cases rest) (auto simp: isLineBreak_def)

lemma text_step_quoted:
  "ch \<noteq> dquote \<Longrightarrow> parseCSV_loop (ch # rest) rows row cur True =
     parseCSV_loop rest rows row (cur @ [ch]) True"
  by (cases rest) auto

lemma text_step_open:
  "parseCSV_loop (dquote # rest) rows row cur False = parseCSV_loop rest rows row cur True"
  by (cases rest) simp_all

lemma text_step_escaped:
  "parseCSV_loop (dquote # dquote # rest) rows row cur True =
     parseCSV_loop rest rows row (cur @ [dquote]) True"
  by simp

lemma text_step_close:
  "rest = [] \<or> hd rest \<noteq> dquote \<Longrightarrow>
     parseCSV_loop (dquote # rest) rows row cur True = parseCSV_loop rest rows row cur False"
  by (cases rest) auto

text \<open>An unquoted value, and the body of a quoted one.\<close>

lemma split_plain:
  "\<forall>c\<in>set v. c \<noteq> dquote \<and> c \<noteq> comma \<Longrightarrow>
     splitCsvLine_loop (v @ rest) out cur False = splitCsvLine_loop rest out (cur @ v) False"
  by (induction v arbitrary: cur) simp_all

lemma split_quoted:
  "splitCsvLine_loop (escapeQuotes v @ dquote # rest) out cur True =
     splitCsvLine_loop rest out (cur @ dropQuotes v) False"
  by (induction v arbitrary: cur) (simp_all add: escapeQuotes_Cons escapeQuotes_Nil dropQuotes_def)

lemma line_plain:
  "\<forall>c\<in>set v. c \<noteq> dquote \<and> c \<noteq> comma \<Longrightarrow>
     parseCSVLine_loop (v @ rest) out cur False = parseCSVLine_loop rest out (cur @ v) False"
  by (induction v arbitrary: cur) (simp_all add: line_step_other)

lemma line_quoted:
  "rest = [] \<or> hd rest \<noteq> dquote \<Longrightarrow>
     parseCSVLine_loop (escapeQuotes v @ dquote # rest) out cur True =
     parseCSVLine_loop rest out (cur @ v) False"
proof (induction v arbitrary: cur)
  case Nil
  then show ?case by (simp add: escapeQuotes_Nil line_step_close)
next
  case (Cons c v)
  show ?case
  proof (cases "c = dquote")
    case True
    then show ?thesis
      using Cons.IH[OF Cons.prems, of "cur @ [dquote]"]
      by (simp add: escapeQuotes_Cons del: parseCSVLine_loop.simps add: line_step_escaped)
  next
    case False
    then show ?thesis
      using Cons.IH[OF Cons.prems, of "cur @ [c]"]
      by (simp add: escapeQuotes_Cons line_step_other del: parseCSVLine_loop.simps)
  qed
qed

lemma text_plain:
  "\<forall>c\<in>set v. c \<noteq> dquote \<and> c \<noteq> comma \<and> \<not> isLineBreak c \<Longrightarrow>
     parseCSV_loop (v @ rest) rows row cur False = parseCSV_loop rest rows row (cur @ v) False"
  by (induction v arbitrary: cur) (simp_all add: text_step_other del: parseCSV_loop.simps)

lemma text_quoted:
  "rest = [] \<or> hd rest \<noteq> dquote \<Longrightarrow>
     parseCSV_loop (escapeQuotes v @ dquote # rest) rows row cur True =
     parseCSV_loop rest rows row (cur @ v) False"
proof (induction v arbitrary: cur)
  case Nil
  then show ?case by (simp add: escapeQuotes_Nil text_step_close)
next
  case (Cons c v)
  show ?case
  proof (cases "c = dquote")
    case True
    then show ?thesis
      using Cons.IH[OF Cons.prems, of "cur @ [dquote]"]
      by (simp add: escapeQuotes_Cons del: parseCSV_loop.simps add: text_step_escaped)
  next
    case False
    then show ?thesis
      using Cons.IH[OF Cons.prems, of "cur @ [c]"]
      by (simp add: escapeQuotes_Cons text_step_quoted del: parseCSV_loop.simps)
  qed
qed

text \<open>A whole field, followed by the end of the line or by a comma.\<close>

lemma split_field:
  assumes "plainField f"
  shows "splitCsvLine_loop (writeField f @ rest) out cur False =
           splitCsvLine_loop rest out (cur @ dropQuotes (snd f)) False"
proof (cases "fst f")
  case True
  then show ?thesis by (simp add: writeField_def quoteField_def split_quoted)
next
  case False
  then have p: "\<forall>c\<in>set (snd f). c \<noteq> dquote \<and> c \<noteq> comma"
    using assms by (simp add: plainField_def)
  then have "dropQuotes (snd f) = snd f" by (simp add: dropQuotes_def)
  then show ?thesis using False p by (simp add: writeField_def split_plain)
qed

lemma line_field:
  assumes "plainField f" and "rest = [] \<or> hd rest \<noteq> dquote"
  shows "parseCSVLine_loop (writeField f @ rest) out cur False =
           parseCSVLine_loop rest out (cur @ snd f) False"
proof (cases "fst f")
  case True
  then show ?thesis
    using line_quoted[OF assms(2)]
    by (simp add: writeField_def quoteField_def line_step_open del: parseCSVLine_loop.simps)
next
  case False
  then have "\<forall>c\<in>set (snd f). c \<noteq> dquote \<and> c \<noteq> comma"
    using assms(1) by (simp add: plainField_def)
  then show ?thesis using False by (simp add: writeField_def line_plain)
qed

lemma text_field:
  assumes "plainField f" and "rest = [] \<or> hd rest \<noteq> dquote"
  shows "parseCSV_loop (writeField f @ rest) rows row cur False =
           parseCSV_loop rest rows row (cur @ snd f) False"
proof (cases "fst f")
  case True
  then show ?thesis
    using text_quoted[OF assms(2)]
    by (simp add: writeField_def quoteField_def text_step_open del: parseCSV_loop.simps)
next
  case False
  then have "\<forall>c\<in>set (snd f). c \<noteq> dquote \<and> c \<noteq> comma \<and> \<not> isLineBreak c"
    using assms(1) by (simp add: plainField_def)
  then show ?thesis using False by (simp add: writeField_def text_plain)
qed

text \<open>A whole line.\<close>

lemma split_fields:
  "\<forall>x\<in>set (f # fs). plainField x \<Longrightarrow>
     splitCsvLine_loop (joinFields (map writeField (f # fs))) out cur False =
       out @ (cur @ dropQuotes (snd f)) # map (\<lambda>x. dropQuotes (snd x)) fs"
proof (induction fs arbitrary: f out cur)
  case Nil
  then show ?case using split_field[of f "[]" out cur] by simp
next
  case (Cons g gs)
  have "splitCsvLine_loop (joinFields (map writeField (f # g # gs))) out cur False =
        splitCsvLine_loop (comma # joinFields (map writeField (g # gs))) out (cur @ dropQuotes (snd f)) False"
    using Cons.prems by (simp add: split_field)
  also have "\<dots> = splitCsvLine_loop (joinFields (map writeField (g # gs)))
        (out @ [cur @ dropQuotes (snd f)]) [] False"
    using dquote_neq_comma by (simp add: split_step_other)
  also have "\<dots> = (out @ [cur @ dropQuotes (snd f)]) @
        ([] @ dropQuotes (snd g)) # map (\<lambda>x. dropQuotes (snd x)) gs"
    using Cons.prems by (intro Cons.IH) simp
  finally show ?case by simp
qed

lemma line_fields:
  "\<forall>x\<in>set (f # fs). plainField x \<Longrightarrow>
     parseCSVLine_loop (joinFields (map writeField (f # fs))) out cur False =
       out @ (cur @ snd f) # map snd fs"
proof (induction fs arbitrary: f out cur)
  case Nil
  then show ?case using line_field[of f "[]" out cur] by simp
next
  case (Cons g gs)
  have "parseCSVLine_loop (joinFields (map writeField (f # g # gs))) out cur False =
        parseCSVLine_loop (comma # joinFields (map writeField (g # gs))) out (cur @ snd f) False"
    using Cons.prems dquote_neq_comma by (simp add: line_field del: parseCSVLine_loop.simps)
  also have "\<dots> = parseCSVLine_loop (joinFields (map writeField (g # gs)))
        (out @ [cur @ snd f]) [] False"
    using dquote_neq_comma by (simp add: line_step_other del: parseCSVLine_loop.simps)
  also have "\<dots> = (out @ [cur @ snd f]) @ ([] @ snd g) # map snd gs"
    using Cons.prems by (intro Cons.IH) simp
  finally show ?case by simp
qed

lemma text_fields:
  "\<forall>x\<in>set (f # fs). plainField x \<Longrightarrow>
     parseCSV_loop (joinFields (map writeField (f # fs))) rows row cur False =
       (rows, row @ butlast ((cur @ snd f) # map snd fs), last ((cur @ snd f) # map snd fs))"
proof (induction fs arbitrary: f row cur)
  case Nil
  then show ?case using text_field[of f "[]" rows row cur] by simp
next
  case (Cons g gs)
  have "parseCSV_loop (joinFields (map writeField (f # g # gs))) rows row cur False =
        parseCSV_loop (comma # joinFields (map writeField (g # gs))) rows row (cur @ snd f) False"
    using Cons.prems dquote_neq_comma by (simp add: text_field del: parseCSV_loop.simps)
  also have "\<dots> = parseCSV_loop (joinFields (map writeField (g # gs)))
        rows (row @ [cur @ snd f]) [] False"
    using dquote_neq_comma
    by (simp add: text_step_other isLineBreak_def comma_def del: parseCSV_loop.simps)
  also have "\<dots> = (rows, (row @ [cur @ snd f]) @ butlast (([] @ snd g) # map snd gs),
        last (([] @ snd g) # map snd gs))"
    using Cons.prems by (intro Cons.IH) simp
  finally show ?case by simp
qed

lemma splitCsvLine_written:
  assumes "fs \<noteq> []" "\<forall>x\<in>set fs. plainField x"
  shows "splitCsvLine (joinFields (map writeField fs)) = map (\<lambda>x. dropQuotes (snd x)) fs"
proof -
  obtain f r where fs: "fs = f # r" using assms(1) by (cases fs) auto
  show ?thesis unfolding splitCsvLine_def fs using split_fields[of f r "[]" "[]"] assms(2) fs by simp
qed

lemma parseCSVLine_written:
  assumes "fs \<noteq> []" "\<forall>x\<in>set fs. plainField x"
  shows "parseCSVLine (joinFields (map writeField fs)) = map snd fs"
proof -
  obtain f r where fs: "fs = f # r" using assms(1) by (cases fs) auto
  show ?thesis unfolding parseCSVLine_def fs using line_fields[of f r "[]" "[]"] assms(2) fs by simp
qed

lemma parseCSV_written:
  assumes "fs \<noteq> []" "\<forall>x\<in>set fs. plainField x" "\<exists>x\<in>set fs. trim (snd x) \<noteq> []"
  shows "parseCSV (joinFields (map writeField fs)) = [map snd fs]"
proof -
  obtain f r where fs: "fs = f # r" using assms(1) by (cases fs) auto
  let ?vals = "snd f # map snd r"
  have l: "parseCSV_loop (joinFields (map writeField fs)) [] [] [] False
      = ([], butlast ?vals, last ?vals)"
    unfolding fs using text_fields[of f r "[]" "[]" "[]"] assms(2) fs by simp
  have t0: "trim [] = []" by (simp add: trim_def)
  have flush: "last ?vals \<noteq> [] \<or> butlast ?vals \<noteq> []"
  proof (cases r)
    case Nil
    then have "trim (snd f) \<noteq> []" using assms(3) fs by simp
    then show ?thesis using Nil t0 by auto
  next
    case (Cons g gs)
    then show ?thesis by simp
  qed
  have id: "butlast ?vals @ [last ?vals] = ?vals"
    by (rule append_butlast_last_id) simp
  have keep: "list_ex (\<lambda>c. trim c \<noteq> []) ?vals"
    using assms(3) fs by (auto simp: list_ex_iff)
  have "parseCSV (joinFields (map writeField fs)) =
      filter (\<lambda>r. list_ex (\<lambda>c. trim c \<noteq> []) r) [butlast ?vals @ [last ?vals]]"
    unfolding parseCSV_def l using flush by (simp del: butlast.simps last.simps)
  also have "\<dots> = [?vals]" unfolding id using keep by simp
  finally show ?thesis by (simp add: fs)
qed

section \<open>Facts about the joiners\<close>

text \<open>A loop of guarded \<^verbatim>\<open>Map.set\<close> calls: the last row that sets a key decides it.\<close>

lemma foldl_set_last:
  "foldl (\<lambda>m r. if g r then m(key r := val r) else m) m0 rows k =
     (case filter (\<lambda>r. g r \<and> key r = k) rows of [] \<Rightarrow> m0 k | x # xs \<Rightarrow> val (last (x # xs)))"
proof (induction rows rule: rev_induct)
  case Nil
  then show ?case by simp
next
  case (snoc r rows)
  then show ?case by (auto split: list.splits)
qed

lemma foldl_set_unique:
  assumes "r \<in> set rows" and "\<forall>r'\<in>set rows. key r' = key r \<longrightarrow> r' = r"
  shows "foldl (\<lambda>m r. if g r then m(key r := val r) else m) m0 rows (key r) =
           (if g r then val r else m0 (key r))"
proof -
  let ?f = "filter (\<lambda>x. g x \<and> key x = key r) rows"
  have all: "\<forall>x\<in>set ?f. x = r" using assms(2) by auto
  show ?thesis
  proof (cases "g r")
    case True
    then have "r \<in> set ?f" using assms(1) by simp
    then obtain x xs where f: "?f = x # xs" by (cases ?f) auto
    have "last (x # xs) \<in> set ?f" unfolding f by (rule last_in_set) simp
    then have "last (x # xs) = r" using all by blast
    then show ?thesis unfolding foldl_set_last f using True by simp
  next
    case False
    then have "?f = []" using all by (auto simp: filter_empty_conv)
    then show ?thesis unfolding foldl_set_last using False by simp
  qed
qed

lemma routeIdToLine_unique:
  assumes "r \<in> set routes" and "\<forall>r'\<in>set routes. r' ''route_id'' = r ''route_id'' \<longrightarrow> r' = r"
  shows "routeIdToLine routes (r ''route_id'') =
     (if truthy (r ''route_id'') \<and> trim (orEmpty (r ''route_short_name'')) \<noteq> []
      then Some (toUpperCase (trim (orEmpty (r ''route_short_name'')))) else None)"
  unfolding routeIdToLine_def Let_def
  using foldl_set_unique[where key = "\<lambda>r. r ''route_id''"
      and g = "\<lambda>r. truthy (r ''route_id'') \<and> trim (orEmpty (r ''route_short_name'')) \<noteq> []"
      and val = "\<lambda>r. Some (toUpperCase (trim (orEmpty (r ''route_short_name''))))", OF assms]
  by simp

lemma routeIdToShort_station_to_lines_eq:
  "routeIdToShort_station_to_lines routes = routeIdToLine routes"
  by (simp add: routeIdToShort_station_to_lines_def routeIdToLine_def)

lemma routeIdToShort_route_shapes_unique:
  assumes "r \<in> set routes" and "\<forall>r'\<in>set routes. r' ''route_id'' = r ''route_id'' \<longrightarrow> r' = r"
  shows "routeIdToShort_route_shapes routes (r ''route_id'') =
     (if truthy (r ''route_id'')
      then (if trim (orEmpty (r ''route_short_name'')) \<noteq> []
            then Some (trim (orEmpty (r ''route_short_name''))) else r ''route_id'')
      else None)"
  unfolding routeIdToShort_route_shapes_def Let_def
  using foldl_set_unique[where key = "\<lambda>r. r ''route_id''"
      and g = "\<lambda>r. truthy (r ''route_id'')"
      and val = "\<lambda>r. if trim (orEmpty (r ''route_short_name'')) \<noteq> []
            then Some (trim (orEmpty (r ''route_short_name''))) else r ''route_id''", OF assms]
  by simp

lemma subwayRoutes_subset: "set (subwayRoutes routes) \<subseteq> set routes"
  by (auto simp: subwayRoutes_def)

lemma routeIdToShort_gtfs_json_unique:
  assumes "r \<in> set (subwayRoutes routes)"
    and "\<forall>r'\<in>set routes. r' ''route_id'' = r ''route_id'' \<longrightarrow> r' = r"
  shows "routeIdToShort_gtfs_json routes (r ''route_id'') =
     (if trim (orEmpty (r ''route_short_name'')) \<noteq> []
      then Some (trim (orEmpty (r ''route_short_name''))) else r ''route_id'')"
proof -
  have u: "\<forall>r'\<in>set (subwayRoutes routes). r' ''route_id'' = r ''route_id'' \<longrightarrow> r' = r"
    using assms(2) subwayRoutes_subset by blast
  show ?thesis
    unfolding routeIdToShort_gtfs_json_def Let_def
    using foldl_set_unique[where key = "\<lambda>r. r ''route_id''" and g = "\<lambda>r. True"
      and val = "\<lambda>r. if trim (orEmpty (r ''route_short_name'')) \<noteq> []
            then Some (trim (orEmpty (r ''route_short_name''))) else r ''route_id''", OF assms(1) u]
    by simp
qed

text \<open>The buckets after step 5.\<close>

lemma buckets_sortAndTrim:
  "buckets (sortAndTrim out) = map (\<lambda>arr. take 120 (sort arr)) (buckets out)"
  by (simp add: buckets_def sortAndTrim_def map_concat o_def case_prod_unfold)

lemma string_le_lexord:
  "(a :: string) \<le> b \<longleftrightarrow> a = b \<or> (a, b) \<in> lexord {(c, d). of_char c < (of_char d :: nat)}"
  by (auto simp: list_le_def list_less_def less_char_def)

lemma sorted_lexord:
  "sorted (arr :: string list) \<Longrightarrow>
     sorted_wrt (\<lambda>a b. a = b \<or> (a, b) \<in> lexord {(c, d). of_char c < (of_char d :: nat)}) arr"
  by (induction arr) (auto simp: string_le_lexord)

section \<open>Facts about the shape selection\<close>

lemma map_of_setEntry:
  "map_of (setEntry k f xs) k' = (if k' = k then Some (f (map_of xs k)) else map_of xs k')"
  by (induction xs) auto

lemma keys_setEntry:
  "map fst (setEntry k f xs) = (if k \<in> fst ` set xs then map fst xs else map fst xs @ [k])"
proof (induction xs)
  case Nil
  then show ?case by simp
next
  case (Cons x xs)
  obtain k' v where x: "x = (k', v)" by (cases x)
  show ?case
  proof (cases "k = k'")
    case True
    then show ?thesis by (simp add: x)
  next
    case False
    then show ?thesis using Cons.IH by (auto simp: x)
  qed
qed

lemma distinct_setEntry:
  "distinct (map fst xs) \<Longrightarrow> distinct (map fst (setEntry k f xs))"
  by (simp add: keys_setEntry)

lemma countTrip_alt:
  "countTrip counts t =
     (if usableTrip t
      then setEntry (tripKey t) (\<lambda>c. (case c of None \<Rightarrow> 0 | Some n \<Rightarrow> n) + 1) counts
      else counts)"
  by (simp add: countTrip_def usableTrip_def tripKey_def tripRoute_def tripDir_def tripShape_def Let_def)

lemma counts_distinct_aux:
  "distinct (map fst cs) \<Longrightarrow> distinct (map fst (foldl countTrip cs trips))"
  by (induction trips arbitrary: cs) (simp_all add: countTrip_alt distinct_setEntry)

lemma counts_distinct: "distinct (map fst (foldl countTrip [] trips))"
  by (rule counts_distinct_aux) simp

lemma counts_lookup_aux:
  "map_of (foldl countTrip cs trips) k =
     (let n = length (filter (\<lambda>t. usableTrip t \<and> tripKey t = k) trips)
      in case map_of cs k of
           None \<Rightarrow> if n = 0 then None else Some n
         | Some m \<Rightarrow> Some (m + n))"
proof (induction trips arbitrary: cs)
  case Nil
  then show ?case by (simp split: option.splits)
next
  case (Cons t trips)
  show ?case
    unfolding foldl_Cons Cons.IH
    by (auto simp: countTrip_alt map_of_setEntry Let_def split: option.splits)
qed

lemma counts_lookup:
  "map_of (foldl countTrip [] trips) k =
     (if length (filter (\<lambda>t. usableTrip t \<and> tripKey t = k) trips) = 0 then None
      else Some (length (filter (\<lambda>t. usableTrip t \<and> tripKey t = k) trips)))"
  by (simp add: counts_lookup_aux Let_def)

lemma counts_entry:
  "(k, c) \<in> set (foldl countTrip [] trips) \<longleftrightarrow>
     c = length (filter (\<lambda>t. usableTrip t \<and> tripKey t = k) trips) \<and> 0 < c"
proof -
  have "(k, c) \<in> set (foldl countTrip [] trips) \<longleftrightarrow> map_of (foldl countTrip [] trips) k = Some c"
    using counts_distinct by (simp add: map_of_eq_Some_iff)
  then show ?thesis by (auto simp: counts_lookup)
qed

lemma map_of_pickBest:
  "map_of (pickBest best e) rd =
     (if routeDirOf (fst e) = rd then better (map_of best rd) e else map_of best rd)"
  by (auto simp: pickBest_def better_def Let_def map_of_setEntry split: option.splits)

lemma map_of_fold_pickBest:
  "map_of (foldl pickBest b es) rd =
     foldl better (map_of b rd) (filter (\<lambda>e. routeDirOf (fst e) = rd) es)"
  by (induction es arbitrary: b) (simp_all add: map_of_pickBest)

lemma pickBest_distinct: "distinct (map fst b) \<Longrightarrow> distinct (map fst (pickBest b e))"
  by (auto simp: pickBest_def Let_def distinct_setEntry split: option.splits)

lemma best_distinct_aux: "distinct (map fst b) \<Longrightarrow> distinct (map fst (foldl pickBest b es))"
  by (induction es arbitrary: b) (simp_all add: pickBest_distinct)

lemma best_distinct: "distinct (map fst (bestShapeByRouteDir trips))"
  unfolding bestShapeByRouteDir_def by (rule best_distinct_aux) simp

lemma better_fold_max:
  assumes "foldl better acc es = Some (s, c)"
  shows "(acc = Some (s, c) \<or> (\<exists>k. (k, c) \<in> set es \<and> shapeOf k = s))
         \<and> (\<forall>e\<in>set es. snd e \<le> c) \<and> (\<forall>ex. acc = Some ex \<longrightarrow> snd ex \<le> c)"
  using assms
proof (induction es arbitrary: acc)
  case Nil
  then show ?case by simp
next
  case (Cons e es)
  from Cons.prems have f: "foldl better (better acc e) es = Some (s, c)" by simp
  note ih = Cons.IH[OF f]
  have b: "better acc e = Some (shapeOf (fst e), snd e) \<or> better acc e = acc"
    by (auto simp: better_def split: option.splits)
  have ge: "\<forall>ex. better acc e = Some ex \<longrightarrow> snd e \<le> snd ex"
    by (auto simp: better_def split: option.splits)
  have ge2: "\<forall>ex ex'. acc = Some ex \<longrightarrow> better acc e = Some ex' \<longrightarrow> snd ex \<le> snd ex'"
    by (auto simp: better_def split: option.splits)
  have some: "better acc e \<noteq> None" by (auto simp: better_def split: option.splits)
  then obtain ex' where ex': "better acc e = Some ex'" by auto
  have c': "snd ex' \<le> c" using ih ex' by blast
  have 1: "acc = Some (s, c) \<or> (\<exists>k. (k, c) \<in> set (e # es) \<and> shapeOf k = s)"
  proof -
    from ih have "better acc e = Some (s, c) \<or> (\<exists>k. (k, c) \<in> set es \<and> shapeOf k = s)" by blast
    then show ?thesis
    proof
      assume a: "better acc e = Some (s, c)"
      from b show ?thesis
      proof
        assume "better acc e = Some (shapeOf (fst e), snd e)"
        with a have "shapeOf (fst e) = s" "snd e = c" by simp_all
        then have "(fst e, c) \<in> set (e # es) \<and> shapeOf (fst e) = s"
          by (cases e) auto
        then show ?thesis by blast
      next
        assume "better acc e = acc"
        with a show ?thesis by simp
      qed
    next
      assume "\<exists>k. (k, c) \<in> set es \<and> shapeOf k = s"
      then show ?thesis by auto
    qed
  qed
  have 2: "\<forall>x\<in>set (e # es). snd x \<le> c"
    using ih ge ex' c' by auto
  have 3: "\<forall>ex. acc = Some ex \<longrightarrow> snd ex \<le> c"
    using ge2 ex' c' by (metis order_trans)
  show ?case using 1 2 3 by blast
qed

lemma better_fold_some:
  "es \<noteq> [] \<Longrightarrow> foldl better acc es \<noteq> None"
proof (induction es arbitrary: acc)
  case Nil
  then show ?case by simp
next
  case (Cons e es)
  have some: "better acc e \<noteq> None" by (auto simp: better_def split: option.splits)
  show ?case
  proof (cases es)
    case Nil
    then show ?thesis using some by simp
  next
    case (Cons a list)
    then show ?thesis using Cons.IH[of "better acc e"] by simp
  qed
qed

text \<open>Splitting a key at its bars.\<close>

lemma split_parts_no_sep: "p \<in> set (split_on sep s) \<Longrightarrow> sep \<notin> set p"
proof (induction s arbitrary: p)
  case Nil
  then show ?case by simp
next
  case (Cons c s)
  obtain f fs where sp: "split_on sep s = f # fs"
    using split_on_ne[of sep s] by (cases "split_on sep s") auto
  show ?case
  proof (cases "c = sep")
    case True
    then show ?thesis using Cons by auto
  next
    case False
    then have "p = c # f \<or> p \<in> set fs" using Cons.prems sp by auto
    then show ?thesis
    proof
      assume "p = c # f"
      moreover have "sep \<notin> set f" using Cons.IH[of f] sp by simp
      ultimately show ?thesis using False by auto
    next
      assume "p \<in> set fs"
      then show ?thesis using Cons.IH[of p] sp by simp
    qed
  qed
qed

lemma split_three:
  assumes "bar \<notin> set r" "bar \<notin> set d" "bar \<notin> set s"
  shows "split_on bar (r @ bar # d @ bar # s) = [r, d, s]"
  using assms by (simp add: split_on_append split_on_no_sep)

lemma split_two:
  assumes "bar \<notin> set a" "bar \<notin> set b"
  shows "split_on bar (a @ bar # b) = [a, b]"
  using assms by (simp add: split_on_append split_on_no_sep)

lemma keyString_no_bar:
  assumes "\<forall>p. v = Some p \<longrightarrow> bar \<notin> set p"
  shows "bar \<notin> set (keyString v)"
  using assms by (cases v) (simp_all add: keyString_def bar_def)

lemma nth_opt_in_set: "nth_opt xs i = Some p \<Longrightarrow> p \<in> set xs"
  by (auto simp: nth_opt_def split: if_splits)

lemma routeDirOf_form:
  "\<exists>a b. routeDirOf key = a @ bar # b \<and> bar \<notin> set a \<and> bar \<notin> set b"
proof -
  let ?parts = "split_on bar key"
  have "bar \<notin> set (keyString (nth_opt ?parts 0))" "bar \<notin> set (keyString (nth_opt ?parts 1))"
    by (rule keyString_no_bar; use nth_opt_in_set split_parts_no_sep in fast)+
  then show ?thesis by (auto simp: routeDirOf_def Let_def)
qed

lemma join_two_inject:
  assumes "a @ bar # b = a' @ bar # b'" "bar \<notin> set a" "bar \<notin> set a'"
  shows "a = a' \<and> b = b'"
proof -
  have tw: "takeWhile (\<lambda>c. c \<noteq> bar) (x @ bar # y) = x" if "bar \<notin> set x" for x y
    using that by (induction x) auto
  have "takeWhile (\<lambda>c. c \<noteq> bar) (a @ bar # b) = a" using assms(2) by (rule tw)
  moreover have "takeWhile (\<lambda>c. c \<noteq> bar) (a' @ bar # b') = a'" using assms(3) by (rule tw)
  ultimately have "a = a'" using assms(1) by simp
  then show ?thesis using assms(1) by simp
qed

lemma tripKey_parts:
  assumes "bar \<notin> set (tripRoute t)" "bar \<notin> set (tripDir t)" "bar \<notin> set (tripShape t)"
  shows "routeDirOf (tripKey t) = tripRoute t @ bar # tripDir t"
    and "shapeOf (tripKey t) = Some (tripShape t)"
  using split_three[OF assms]
  by (simp_all add: routeDirOf_def shapeOf_def tripKey_def nth_opt_def keyString_def Let_def)

text \<open>The points kept for a chosen shape.\<close>

lemma addPoint_lookup:
  assumes "sid \<noteq> []" "Some sid \<in> set chosen"
  shows "orNew (map_of (addPoint num chosen sp s) sid) =
           orNew (map_of sp sid) @ (case validPoint num sid s of None \<Rightarrow> [] | Some p \<Rightarrow> [p])"
proof (cases "s ''shape_id'' = Some sid")
  case True
  then show ?thesis
    using assms
    by (auto simp: addPoint_def validPoint_def truthy_def orEmpty_def orNew_def Let_def
        map_of_setEntry split: option.splits)
next
  case False
  then have v: "validPoint num sid s = None" by (simp add: validPoint_def)
  have "map_of (addPoint num chosen sp s) sid = map_of sp sid"
    using False
    by (cases "s ''shape_id''")
       (auto simp: addPoint_def Let_def map_of_setEntry orEmpty_def truthy_def split: option.splits)
  then show ?thesis by (simp add: v)
qed

lemma addPoints_lookup:
  assumes "sid \<noteq> []" "Some sid \<in> set chosen"
  shows "orNew (map_of (foldl (addPoint num chosen) sp shapes) sid) =
           orNew (map_of sp sid) @ validPoints num shapes sid"
proof (induction shapes arbitrary: sp)
  case Nil
  then show ?case by (simp add: validPoints_def List.map_filter_simps)
next
  case (Cons s shapes)
  show ?case
    unfolding foldl_Cons Cons.IH addPoint_lookup[OF assms]
    by (simp add: validPoints_def List.map_filter_simps split: option.splits)
qed

lemma map_of_sorted_points:
  "map_of (map (\<lambda>(sid, pts). (sid, sort_key pt_seq pts)) sp) k =
     map_option (sort_key pt_seq) (map_of sp k)"
  by (induction sp) auto

lemma pointsFor_chosen:
  assumes "sid \<noteq> []" "Some sid \<in> set chosen"
  shows "pointsFor (shapePointsOf num chosen shapes) (Some sid) =
           sort_key pt_seq (validPoints num shapes sid)"
proof -
  let ?sp = "foldl (addPoint num chosen) [] shapes"
  have v: "orNew (map_of ?sp sid) = validPoints num shapes sid"
    using addPoints_lookup[OF assms, of num "[]" shapes] by (simp add: orNew_def)
  show ?thesis
    unfolding pointsFor_def shapePointsOf_def map_of_sorted_points
    using v by (cases "map_of ?sp sid") (simp_all add: orNew_def)
qed

text \<open>Counting the features of one group.\<close>

lemma length_filter_map_filter:
  "length (filter P (List.map_filter g xs)) =
     length (filter (\<lambda>x. case g x of None \<Rightarrow> False | Some y \<Rightarrow> P y) xs)"
  by (induction xs) (auto simp: List.map_filter_simps split: option.splits)

lemma filter_key_distinct:
  assumes "distinct (map fst xs)" "map_of xs k = Some v"
  shows "filter (\<lambda>x. fst x = k \<and> Q x) xs = (if Q (k, v) then [(k, v)] else [])"
  using assms
proof (induction xs)
  case Nil
  then show ?case by simp
next
  case (Cons x xs)
  obtain k' v' where x: "x = (k', v')" by (cases x)
  show ?case
  proof (cases "k' = k")
    case True
    then have v: "v' = v" using Cons.prems(2) x by simp
    have "k \<notin> fst ` set xs" using Cons.prems(1) x True by auto
    then have "filter (\<lambda>x. fst x = k \<and> Q x) xs = []"
      by (auto simp: filter_empty_conv)
    then show ?thesis using True v x by simp
  next
    case False
    then show ?thesis using Cons x by simp
  qed
qed

lemma featureFor_key:
  assumes "featureFor names sp e = Some f"
  shows "route_id f = nth_opt (split_on bar (fst e)) 0"
    and "direction_id f = nth_opt (split_on bar (fst e)) 1"
    and "shape_id f = fst (snd e)" and "trips_sampled f = snd (snd e)"
    and "2 \<le> length (coordinates f)"
  using assms by (auto simp: featureFor_def Let_def split: if_splits)

lemma featureFor_some:
  "featureFor names sp e \<noteq> None \<longleftrightarrow> 2 \<le> length (pointsFor sp (fst (snd e)))"
  by (auto simp: featureFor_def Let_def)

lemma keys_setEntry_set: "fst ` set (setEntry k f xs) = insert k (fst ` set xs)"
proof -
  have "set (map fst (setEntry k f xs)) = insert k (set (map fst xs))"
    unfolding keys_setEntry by auto
  then show ?thesis by simp
qed

lemma pickBest_keys:
  "fst ` set (pickBest b e) \<subseteq> insert (routeDirOf (fst e)) (fst ` set b)"
  by (auto simp: pickBest_def Let_def keys_setEntry_set split: option.splits)

lemma best_keys_aux:
  "k \<in> fst ` set (foldl pickBest b es) \<Longrightarrow>
     k \<in> fst ` set b \<or> (\<exists>e\<in>set es. k = routeDirOf (fst e))"
proof (induction es arbitrary: b)
  case Nil
  then show ?case by simp
next
  case (Cons e es)
  from Cons.IH[of "pickBest b e"] Cons.prems
  have "k \<in> fst ` set (pickBest b e) \<or> (\<exists>e\<in>set es. k = routeDirOf (fst e))" by simp
  then show ?case using pickBest_keys[of b e] by auto
qed

lemma best_key_form:
  assumes "e \<in> set (bestShapeByRouteDir trips)"
  shows "\<exists>a b. fst e = a @ bar # b \<and> bar \<notin> set a \<and> bar \<notin> set b"
proof -
  have "fst e \<in> fst ` set (foldl pickBest [] (foldl countTrip [] trips))"
    using assms by (auto simp: bestShapeByRouteDir_def)
  from best_keys_aux[OF this]
  obtain x where "fst e = routeDirOf (fst x)" by auto
  then show ?thesis using routeDirOf_form[of "fst x"] by simp
qed

lemma usable_nonempty: "usableTrip t \<Longrightarrow> tripShape t \<noteq> [] \<and> tripRoute t \<noteq> []"
  by (auto simp: usableTrip_def truthy_def tripShape_def tripRoute_def orEmpty_def split: option.splits)

text \<open>
  With ids free of bars, the trips that share a key are the trips of one group and one
  shape, and the entry of a group holds a shape of that group with the highest count.
\<close>

lemma same_key_iff:
  assumes "usableTrip t" "usableTrip u"
    and "bar \<notin> set (tripRoute t) \<and> bar \<notin> set (tripDir t) \<and> bar \<notin> set (tripShape t)"
    and "bar \<notin> set (tripRoute u) \<and> bar \<notin> set (tripDir u) \<and> bar \<notin> set (tripShape u)"
  shows "tripKey t = tripKey u \<longleftrightarrow>
           tripRoute t = tripRoute u \<and> tripDir t = tripDir u \<and> tripShape t = tripShape u"
proof
  assume "tripKey t = tripKey u"
  then have "split_on bar (tripKey t) = split_on bar (tripKey u)" by simp
  then have "[tripRoute t, tripDir t, tripShape t] = [tripRoute u, tripDir u, tripShape u]"
    using assms(3,4) by (simp add: tripKey_def split_three)
  then show "tripRoute t = tripRoute u \<and> tripDir t = tripDir u \<and> tripShape t = tripShape u"
    by simp
next
  assume "tripRoute t = tripRoute u \<and> tripDir t = tripDir u \<and> tripShape t = tripShape u"
  then show "tripKey t = tripKey u" by (simp add: tripKey_def)
qed

lemma key_count:
  assumes H: "\<forall>t\<in>set trips. usableTrip t \<longrightarrow>
        bar \<notin> set (tripRoute t) \<and> bar \<notin> set (tripDir t) \<and> bar \<notin> set (tripShape t)"
    and u: "u \<in> set trips" "usableTrip u"
  shows "length (filter (\<lambda>t. usableTrip t \<and> tripKey t = tripKey u) trips)
           = tripCount trips (tripRoute u) (tripDir u) (tripShape u)"
  unfolding tripCount_def
proof (rule arg_cong[of _ _ length], rule filter_cong[OF refl])
  fix t assume t: "t \<in> set trips"
  show "(usableTrip t \<and> tripKey t = tripKey u) =
        (usableTrip t \<and> tripRoute t = tripRoute u \<and> tripDir t = tripDir u \<and> tripShape t = tripShape u)"
  proof (cases "usableTrip t")
    case True
    then show ?thesis using same_key_iff[OF True u(2)] H t u by blast
  next
    case False
    then show ?thesis by simp
  qed
qed

lemma group_entry:
  assumes H: "\<forall>t\<in>set trips. usableTrip t \<longrightarrow>
        bar \<notin> set (tripRoute t) \<and> bar \<notin> set (tripDir t) \<and> bar \<notin> set (tripShape t)"
    and t0: "t0 \<in> set trips" "usableTrip t0"
  shows "\<exists>s c. map_of (bestShapeByRouteDir trips) (tripRoute t0 @ bar # tripDir t0) = Some (Some s, c)
      \<and> s \<noteq> [] \<and> c = tripCount trips (tripRoute t0) (tripDir t0) s \<and> 1 \<le> c
      \<and> (\<forall>s'. tripCount trips (tripRoute t0) (tripDir t0) s' \<le> c)"
proof -
  let ?r = "tripRoute t0" and ?d = "tripDir t0"
  let ?rd = "?r @ bar # ?d"
  let ?counts = "foldl countTrip [] trips"
  let ?grp = "filter (\<lambda>e. routeDirOf (fst e) = ?rd) ?counts"
  have nb0: "bar \<notin> set ?r" "bar \<notin> set ?d" using H t0 by auto
  have inGrp: "(tripKey u, tripCount trips ?r ?d (tripShape u)) \<in> set ?grp
      \<and> 0 < tripCount trips ?r ?d (tripShape u)"
    if u: "u \<in> set trips" "usableTrip u" "tripRoute u = ?r" "tripDir u = ?d" for u
  proof -
    let ?n = "length (filter (\<lambda>t. usableTrip t \<and> tripKey t = tripKey u) trips)"
    have "u \<in> set (filter (\<lambda>t. usableTrip t \<and> tripKey t = tripKey u) trips)" using u by simp
    then have pos: "0 < ?n" by (metis length_pos_if_in_set)
    then have "(tripKey u, ?n) \<in> set ?counts" by (simp add: counts_entry)
    moreover have "?n = tripCount trips ?r ?d (tripShape u)"
      using key_count[OF H u(1,2)] u(3,4) by simp
    moreover have "routeDirOf (tripKey u) = ?rd"
      using tripKey_parts(1)[of u] H u by auto
    ultimately show ?thesis using pos by simp
  qed
  have "(tripKey t0, tripCount trips ?r ?d (tripShape t0)) \<in> set ?grp"
    using inGrp[OF t0] by simp
  then have "?grp \<noteq> []" by (metis empty_iff list.set(1))
  then have "foldl better None ?grp \<noteq> None" by (rule better_fold_some)
  then obtain so c where b: "foldl better None ?grp = Some (so, c)" by auto
  have look: "map_of (bestShapeByRouteDir trips) ?rd = Some (so, c)"
    unfolding bestShapeByRouteDir_def map_of_fold_pickBest using b by simp
  from better_fold_max[OF b]
  obtain k where k: "(k, c) \<in> set ?grp" "shapeOf k = so" and mx: "\<forall>e\<in>set ?grp. snd e \<le> c"
    by auto
  from k(1) have kc: "(k, c) \<in> set ?counts" and krd: "routeDirOf k = ?rd" by auto
  from kc have c: "c = length (filter (\<lambda>t. usableTrip t \<and> tripKey t = k) trips)" "0 < c"
    using counts_entry[of k c trips] by blast+
  have "0 < length (filter (\<lambda>t. usableTrip t \<and> tripKey t = k) trips)"
    using c(2) by (simp only: c(1)[symmetric])
  then have "filter (\<lambda>t. usableTrip t \<and> tripKey t = k) trips \<noteq> []"
    by simp
  then obtain t1 where t1: "t1 \<in> set trips" "usableTrip t1" "tripKey t1 = k"
    by (metis (mono_tags, lifting) filter_empty_conv)
  have nb1: "bar \<notin> set (tripRoute t1)" "bar \<notin> set (tripDir t1)" "bar \<notin> set (tripShape t1)"
    using H t1 by auto
  have "tripRoute t1 @ bar # tripDir t1 = ?rd"
    using tripKey_parts(1)[OF nb1] krd t1(3) by simp
  then have g1: "tripRoute t1 = ?r" "tripDir t1 = ?d"
    using join_two_inject[OF _ nb1(1) nb0(1)] by auto
  have so: "so = Some (tripShape t1)"
    using tripKey_parts(2)[OF nb1] k(2) t1(3) by simp
  have cnt: "c = tripCount trips ?r ?d (tripShape t1)"
    using key_count[OF H t1(1,2)] c(1) t1(3) g1 by simp
  have le: "tripCount trips ?r ?d s' \<le> c" for s'
  proof (cases "tripCount trips ?r ?d s' = 0")
    case True
    then show ?thesis by simp
  next
    case False
    then have "0 < length (filter (\<lambda>t. usableTrip t \<and> tripRoute t = ?r \<and> tripDir t = ?d \<and> tripShape t = s') trips)"
      unfolding tripCount_def by (simp only: neq0_conv)
    then have "filter (\<lambda>t. usableTrip t \<and> tripRoute t = ?r \<and> tripDir t = ?d \<and> tripShape t = s') trips \<noteq> []"
      by simp
    then obtain t2 where t2: "t2 \<in> set trips" "usableTrip t2" "tripRoute t2 = ?r" "tripDir t2 = ?d"
        "tripShape t2 = s'"
      by (metis (mono_tags, lifting) filter_empty_conv)
    from inGrp[OF t2(1-4)] mx t2(5) show ?thesis by fastforce
  qed
  show ?thesis
    using look so cnt le c(2) usable_nonempty[OF t1(2)] by auto
qed

lemma group_feature_count:
  assumes H: "\<forall>t\<in>set trips. usableTrip t \<longrightarrow>
        bar \<notin> set (tripRoute t) \<and> bar \<notin> set (tripDir t) \<and> bar \<notin> set (tripShape t)"
    and t0: "t0 \<in> set trips" "usableTrip t0"
    and look: "map_of (bestShapeByRouteDir trips) (tripRoute t0 @ bar # tripDir t0) = Some (Some s, c)"
    and s: "s \<noteq> []"
  shows "length (filter (\<lambda>f. route_id f = Some (tripRoute t0) \<and> direction_id f = Some (tripDir t0))
            (featuresOf num routes trips shapes))
         = (if 2 \<le> length (validPoints num shapes s) then 1 else 0)"
proof -
  let ?r = "tripRoute t0" and ?d = "tripDir t0"
  let ?rd = "?r @ bar # ?d"
  let ?best = "bestShapeByRouteDir trips"
  let ?chosen = "map (\<lambda>x. fst (snd x)) ?best"
  let ?sp = "shapePointsOf num ?chosen shapes"
  let ?g = "featureFor (routeIdToShort_route_shapes routes) ?sp"
  let ?P = "\<lambda>f. route_id f = Some ?r \<and> direction_id f = Some ?d"
  have nb0: "bar \<notin> set ?r" "bar \<notin> set ?d" using H t0 by auto
  have mem: "(?rd, (Some s, c)) \<in> set ?best" using look by (rule map_of_SomeD)
  then have ch: "Some s \<in> set ?chosen" by force
  have pts: "pointsFor ?sp (Some s) = sort_key pt_seq (validPoints num shapes s)"
    using s ch by (rule pointsFor_chosen)
  have sel: "(case ?g e of None \<Rightarrow> False | Some f \<Rightarrow> ?P f) \<longleftrightarrow> (fst e = ?rd \<and> ?g e \<noteq> None)"
    if e: "e \<in> set ?best" for e
  proof (cases "?g e")
    case None
    then show ?thesis by simp
  next
    case (Some f)
    obtain a b where ab: "fst e = a @ bar # b" "bar \<notin> set a" "bar \<notin> set b"
      using best_key_form[OF e] by blast
    have sp: "split_on bar (fst e) = [a, b]" unfolding ab(1) using ab(2,3) by (rule split_two)
    have "route_id f = Some a" "direction_id f = Some b"
      using featureFor_key(1,2)[OF Some] by (simp_all add: sp nth_opt_def)
    then have "?P f \<longleftrightarrow> fst e = ?rd"
      using ab(1) join_two_inject[OF _ ab(2) nb0(1), of b ?d] by auto
    then show ?thesis using Some by simp
  qed
  have "length (filter ?P (featuresOf num routes trips shapes))
      = length (filter (\<lambda>e. case ?g e of None \<Rightarrow> False | Some f \<Rightarrow> ?P f) ?best)"
    by (simp add: featuresOf_def Let_def length_filter_map_filter)
  also have "filter (\<lambda>e. case ?g e of None \<Rightarrow> False | Some f \<Rightarrow> ?P f) ?best
      = filter (\<lambda>e. fst e = ?rd \<and> ?g e \<noteq> None) ?best"
    by (rule filter_cong[OF refl]) (rule sel)
  also have "\<dots> = (if ?g (?rd, (Some s, c)) \<noteq> None then [(?rd, (Some s, c))] else [])"
    using best_distinct look by (rule filter_key_distinct)
  also have "?g (?rd, (Some s, c)) \<noteq> None \<longleftrightarrow> 2 \<le> length (validPoints num shapes s)"
    unfolding featureFor_some by (simp add: pts)
  finally show ?thesis by simp
qed

section \<open>Clock normalization\<close>

text \<open>
  Claim C1. For every clock string \<open>HH:MM:SS\<close> with
  \<open>raw = H * 3600 + M * 60 + S\<close> and every \<open>nowSec\<close> between 0 and 86399,
  \<open>etaSecondsFromGTFS\<close> returns \<open>raw mod 86400 + 86400 - nowSec\<close> when
  \<open>raw \<ge> 86400\<close>, the same expression when \<open>raw < 86400\<close> and
  \<open>raw mod 86400 < nowSec\<close>, and \<open>raw - nowSec\<close> otherwise. It returns 90600 for
  \<open>25:10:00\<close> at \<open>nowSec = 0\<close> and 86340 for \<open>07:59:00\<close> at
  \<open>nowSec = 28800\<close>, which is beyond the 90-minute horizon.
\<close>

theorem eta_clock_normalization:
  assumes "clockField hs" "clockField ms" "clockField ss"
    and "0 \<le> nowSec" "nowSec \<le> 86399"
    and "raw = decimal hs * 3600 + decimal ms * 60 + decimal ss"
  shows "etaSecondsFromGTFS nowSec (hs @ CHR '':'' # ms @ CHR '':'' # ss) =
           Some (if raw \<ge> 86400 then raw mod 86400 + 86400 - nowSec
                 else if raw mod 86400 < nowSec then raw mod 86400 + 86400 - nowSec
                 else raw - nowSec)
         \<and> etaSecondsFromGTFS 0 ''25:10:00'' = Some 90600
         \<and> etaSecondsFromGTFS 28800 ''07:59:00'' = Some 86340
         \<and> \<not> (86340 \<le> MAX_SHOW_MIN * 60)"
proof -
  have t: "timeToSecondsSinceMidnight (hs @ CHR '':'' # ms @ CHR '':'' # ss) = Some raw"
    using assms(1-3,6) by (simp add: timeToSeconds_clock)
  have nn: "0 \<le> raw" using assms(1-3,6) by (simp add: clock_raw_nonneg)
  have r: "js_rem raw 86400 = raw mod 86400" using nn by (simp add: js_rem_nonneg)
  have small: "raw < 86400 \<Longrightarrow> raw mod 86400 = raw" using nn by simp
  have "etaSecondsFromGTFS nowSec (hs @ CHR '':'' # ms @ CHR '':'' # ss) =
           Some (if raw \<ge> 86400 then raw mod 86400 + 86400 - nowSec
                 else if raw mod 86400 < nowSec then raw mod 86400 + 86400 - nowSec
                 else raw - nowSec)"
    unfolding etaSecondsFromGTFS_def t using small by (simp add: r Let_def)
  then show ?thesis
    by (simp add: eta_2510 eta_0759 MAX_SHOW_MIN_def)
qed

theorem eta_clock_normalization_witness:
  "clockField ''08'' \<and> clockField ''05'' \<and> clockField ''00''
   \<and> (0::int) \<le> 28800 \<and> (28800::int) \<le> 86399
   \<and> etaSecondsFromGTFS 28800 ''08:05:00'' = Some 300"
proof -
  have f: "clockField ''08''" "clockField ''05''" "clockField ''00''"
    by (simp_all add: clockField_def isDigit_def less_eq_char_def)
  have raw: "(29100::int) = decimal ''08'' * 3600 + decimal ''05'' * 60 + decimal ''00''"
    by (simp add: decimal_def digitVal_def)
  show ?thesis
    using f eta_clock_normalization [OF f, of 28800 29100] raw by simp
qed

section \<open>Per-key scheduled selection\<close>

text \<open>
  Claim C2. For every (station, line, headsign) key, the estimator keeps the listed clock
  strings whose countdown is at least 0 and at most 5400 seconds, sorts them ascending by
  countdown and keeps at most 5 (the smallest ones); \<open>hasSoon\<close> holds exactly when a
  kept entry has a countdown of at most 1200 seconds, and then the group emitted holds at
  most 4 of the kept entries, each labelled scheduled and carrying its clock string.
\<close>

theorem scheduled_selection:
  "let ups = upcomingScheduled nowSec tms in
     (\<forall>u\<in>set ups. source u = Scheduled \<and> 0 \<le> etaSec u \<and> etaSec u \<le> 5400 \<and>
        (\<exists>t\<in>set tms. timeStr u = Some t \<and> etaSecondsFromGTFS nowSec t = Some (etaSec u)))
     \<and> mset (map clockOf ups) \<subseteq># mset (eligible nowSec tms)
     \<and> (\<forall>x\<in>#mset (eligible nowSec tms) - mset (map clockOf ups). \<forall>u\<in>set ups. etaSec u \<le> snd x)
     \<and> sorted (map etaSec ups)
     \<and> length ups = min 5 (length (eligible nowSec tms))
     \<and> (hasSoon ups \<longleftrightarrow> (\<exists>u\<in>set ups. etaSec u \<le> 1200))
     \<and> (hasSoon ups \<longrightarrow>
          (\<exists>g. groupFor nowSec rnd k lname hs tms = (Some g, k) \<and> line g = toUpperCase lname
             \<and> headsign g = hs \<and> upcoming g = take 4 ups \<and> length (upcoming g) \<le> 4))"
proof -
  let ?ups = "upcomingScheduled nowSec tms"
  have a: "\<forall>u\<in>set ?ups. source u = Scheduled \<and> 0 \<le> etaSec u \<and> etaSec u \<le> 5400 \<and>
        (\<exists>t\<in>set tms. timeStr u = Some t \<and> etaSecondsFromGTFS nowSec t = Some (etaSec u))"
    using upcoming_entry by blast
  have b: "\<forall>x\<in>#mset (eligible nowSec tms) - mset (map clockOf ?ups). \<forall>u\<in>set ?ups. etaSec u \<le> snd x"
    using upcoming_smallest by blast
  have c: "hasSoon ?ups \<longrightarrow>
          (\<exists>g. groupFor nowSec rnd k lname hs tms = (Some g, k) \<and> line g = toUpperCase lname
             \<and> headsign g = hs \<and> upcoming g = take 4 ?ups \<and> length (upcoming g) \<le> 4)"
    by (simp add: groupFor_soon)
  show ?thesis
    unfolding Let_def using a b c upcoming_mset sorted_upcoming length_upcoming hasSoon_iff
    by blast
qed

theorem scheduled_selection_witness:
  "upcomingScheduled 28800 [''08:30:00'', ''soon'', ''09:45:00'', ''08:05:00''] =
     [scheduledArrival (''08:05:00'', 300), scheduledArrival (''08:30:00'', 1800)]
   \<and> hasSoon (upcomingScheduled 28800 [''08:30:00'', ''soon'', ''09:45:00'', ''08:05:00''])
   \<and> fst (groupFor 28800 (\<lambda>i. 0) 0 ''a'' ''Uptown'' [''08:30:00'', ''soon'', ''09:45:00'', ''08:05:00''])
       = Some \<lparr>line = ''A'', headsign = ''Uptown'',
               upcoming = [scheduledArrival (''08:05:00'', 300), scheduledArrival (''08:30:00'', 1800)]\<rparr>"
proof -
  let ?tms = "[''08:30:00'', ''soon'', ''09:45:00'', ''08:05:00'']"
  have u: "upcomingScheduled 28800 ?tms =
     [scheduledArrival (''08:05:00'', 300), scheduledArrival (''08:30:00'', 1800)]"
    by (simp add: upcomingScheduled_def nonNegativeEtas_def List.map_filter_simps eta_samples
        MAX_SHOW_MIN_def)
  have h: "hasSoon (upcomingScheduled 28800 ?tms)"
    unfolding u by (simp add: hasSoon_def scheduledArrival_def SOON_WINDOW_MIN_def)
  have up: "toUpperCase ''a'' = ''A''"
    by code_simp
  from scheduled_selection[of 28800 ?tms "\<lambda>i. 0" 0 "''a''" "''Uptown''"] h
  obtain g where "groupFor 28800 (\<lambda>i. 0) 0 ''a'' ''Uptown'' ?tms = (Some g, 0)"
    "line g = toUpperCase ''a''" "headsign g = ''Uptown''"
    "upcoming g = take 4 (upcomingScheduled 28800 ?tms)"
    unfolding Let_def by blast
  then show ?thesis using u h up by simp
qed

section \<open>Synthesis fallback\<close>

text \<open>
  Claim C3. \<open>simulateEtas\<close> with base 6, count 3, jitter 2 and step 6 returns exactly
  3 minute values, each at least 1, in non-decreasing order. Whenever \<open>hasSoon\<close> is
  false the group emitted consists of these 3 entries labelled estimated, followed by
  the nearest kept scheduled entry if there is one; it has at most 4 entries and, for
  random draws in \<open>[0, 1)\<close>, is ascending by countdown.
\<close>

theorem synthesis_fallback:
  "let sim = simulateEtas rnd k 6 3 2 6; ups = upcomingScheduled nowSec tms in
     length sim = 3 \<and> (\<forall>m\<in>set sim. 1 \<le> m) \<and> sorted sim \<and>
     (\<not> hasSoon ups \<longrightarrow>
        (\<exists>g. groupFor nowSec rnd k lname hs tms = (Some g, k + 3) \<and>
           upcoming g = map estimatedArrival sim @ (case ups of [] \<Rightarrow> [] | u # _ \<Rightarrow> [u]) \<and>
           (\<forall>a\<in>set (map estimatedArrival sim). source a = Estimated \<and> timeStr a = None) \<and>
           (\<forall>u\<in>set ups. source u = Scheduled \<and> etaSec (hd ups) \<le> etaSec u) \<and>
           length (upcoming g) \<le> 4 \<and>
           ((\<forall>i. 0 \<le> rnd i \<and> rnd i < 1) \<longrightarrow> sorted (map etaSec (upcoming g)))))"
proof -
  let ?sim = "simulateEtas rnd k 6 3 2 6"
  let ?ups = "upcomingScheduled nowSec tms"
  have s: "length ?sim = 3" "\<forall>m\<in>set ?sim. 1 \<le> m" "sorted ?sim"
    using simulateEtas_length simulateEtas_ge1 simulateEtas_sorted by blast+
  have g: "\<exists>g. groupFor nowSec rnd k lname hs tms = (Some g, k + 3) \<and>
           upcoming g = map estimatedArrival ?sim @ (case ?ups of [] \<Rightarrow> [] | u # _ \<Rightarrow> [u]) \<and>
           (\<forall>a\<in>set (map estimatedArrival ?sim). source a = Estimated \<and> timeStr a = None) \<and>
           (\<forall>u\<in>set ?ups. source u = Scheduled \<and> etaSec (hd ?ups) \<le> etaSec u) \<and>
           length (upcoming g) \<le> 4 \<and>
           ((\<forall>i. 0 \<le> rnd i \<and> rnd i < 1) \<longrightarrow> sorted (map etaSec (upcoming g)))"
    if ns: "\<not> hasSoon ?ups"
  proof -
    let ?g = "\<lparr>line = toUpperCase lname, headsign = hs,
                upcoming = map estimatedArrival ?sim @ (case ?ups of [] \<Rightarrow> [] | u # _ \<Rightarrow> [u])\<rparr>"
    have 1: "groupFor nowSec rnd k lname hs tms = (Some ?g, k + 3)"
      using ns by (rule groupFor_not_soon)
    have 2: "\<forall>a\<in>set (map estimatedArrival ?sim). source a = Estimated \<and> timeStr a = None"
      by (auto simp: estimatedArrival_def)
    have 3: "\<forall>u\<in>set ?ups. source u = Scheduled \<and> etaSec (hd ?ups) \<le> etaSec u"
      using upcoming_entry upcoming_hd_least by blast
    have 4: "length (upcoming ?g) \<le> 4"
      by (simp add: s(1) split: list.splits)
    have 5: "(\<forall>i. 0 \<le> rnd i \<and> rnd i < 1) \<longrightarrow> sorted (map etaSec (upcoming ?g))"
      using fallback_sorted[OF _ ns] by simp
    show ?thesis using 1 2 3 4 5 by (intro exI[of _ ?g]) simp
  qed
  show ?thesis unfolding Let_def using s g by blast
qed

theorem synthesis_fallback_witness:
  "\<not> hasSoon (upcomingScheduled 28800 [''08:30:00''])
   \<and> (\<forall>i::nat. (0::real) \<le> 1 / 2 \<and> (1::real) / 2 < 1)
   \<and> map etaSec (upcoming (the (fst (groupFor 28800 (\<lambda>i. 1 / 2) 0 ''a'' ''Uptown'' [''08:30:00''])))) =
        [360, 720, 1080, 1800]
   \<and> map source (upcoming (the (fst (groupFor 28800 (\<lambda>i. 1 / 2) 0 ''a'' ''Uptown'' [''08:30:00''])))) =
        [Estimated, Estimated, Estimated, Scheduled]"
proof -
  have u: "upcomingScheduled 28800 [''08:30:00''] = [scheduledArrival (''08:30:00'', 1800)]"
    by (simp add: upcomingScheduled_def nonNegativeEtas_def List.map_filter_simps eta_samples
        MAX_SHOW_MIN_def)
  have h: "\<not> hasSoon (upcomingScheduled 28800 [''08:30:00''])"
    unfolding u by (simp add: hasSoon_def scheduledArrival_def SOON_WINDOW_MIN_def)
  from synthesis_fallback[of "\<lambda>i. 1 / 2" 0 28800 "[''08:30:00'']" "''a''" "''Uptown''"] h
  obtain g where g: "groupFor 28800 (\<lambda>i. 1 / 2) 0 ''a'' ''Uptown'' [''08:30:00''] = (Some g, 0 + 3)"
    "upcoming g = map estimatedArrival (simulateEtas (\<lambda>i. 1 / 2) 0 6 3 2 6) @
       (case upcomingScheduled 28800 [''08:30:00''] of [] \<Rightarrow> [] | u # _ \<Rightarrow> [u])"
    unfolding Let_def by blast
  show ?thesis
    using h by (simp add: g u sim_half estimatedArrival_def scheduledArrival_def)
qed

section \<open>One group per key\<close>

text \<open>
  Claim C10. For every station present in the arrival index, exactly one group is emitted
  per (line, headsign) key stored at that station, every group's list has at least 1 and
  at most 4 entries, and the loop body never takes the branch that pushes no group.
\<close>

theorem one_group_per_key:
  assumes "map_of arrivalsByDest stopId = Some stationData"
  shows "map groupKey (collectGroups nowSec rnd k stationData) = map shownKey (stationKeys stationData)
    \<and> mset (nextArrivals arrivalsByDest (Some stopId) nowSec rnd k)
        = mset (collectGroups nowSec rnd k stationData)
    \<and> length (nextArrivals arrivalsByDest (Some stopId) nowSec rnd k) = length (stationKeys stationData)
    \<and> (\<forall>g\<in>set (nextArrivals arrivalsByDest (Some stopId) nowSec rnd k).
          1 \<le> length (upcoming g) \<and> length (upcoming g) \<le> 4)
    \<and> (\<forall>j lname hs tms. fst (groupFor nowSec rnd j lname hs tms) \<noteq> None)"
proof -
  let ?c = "collectGroups nowSec rnd k stationData"
  have n: "nextArrivals arrivalsByDest (Some stopId) nowSec rnd k = sort_key firstEta ?c"
    using assms by (rule nextArrivals_found)
  have len: "length ?c = length (stationKeys stationData)"
    using collectGroups_keys(1)[of nowSec rnd k stationData] by (metis length_map)
  have sz: "\<forall>g\<in>set ?c. 1 \<le> length (upcoming g) \<and> length (upcoming g) \<le> 4"
    using collectGroups_keys(2)[of nowSec rnd k stationData]
    by (simp add: list_all_iff wellSized_def)
  have tot: "fst (groupFor nowSec rnd j lname hs tms) \<noteq> None" for j lname hs tms
    using groupFor_total[of nowSec rnd j lname hs tms] by auto
  show ?thesis
    unfolding n using collectGroups_keys(1) len sz tot by simp
qed

theorem one_group_per_key_witness:
  "map_of [(''S1'', [(''a'', [(''Uptown'', [''08:05:00'']), (''Downtown'', [])])])] ''S1''
     = Some [(''a'', [(''Uptown'', [''08:05:00'']), (''Downtown'', [])])]
   \<and> length (nextArrivals [(''S1'', [(''a'', [(''Uptown'', [''08:05:00'']), (''Downtown'', [])])])]
         (Some ''S1'') 28800 (\<lambda>i. 1 / 2) 0) = 2
   \<and> mset (map groupKey (nextArrivals [(''S1'', [(''a'', [(''Uptown'', [''08:05:00'']), (''Downtown'', [])])])]
         (Some ''S1'') 28800 (\<lambda>i. 1 / 2) 0)) = {#(''A'', ''Uptown''), (''A'', ''Downtown'')#}"
proof -
  let ?sd = "[(''a'', [(''Uptown'', [''08:05:00'']), (''Downtown'', [])])]"
  let ?idx = "[(''S1'', ?sd)]"
  have m: "map_of ?idx ''S1'' = Some ?sd" by simp
  have up: "toUpperCase ''a'' = ''A''" by code_simp
  have keys: "map shownKey (stationKeys ?sd) = [(''A'', ''Uptown''), (''A'', ''Downtown'')]"
    by (simp add: stationKeys_def shownKey_def up)
  note t = one_group_per_key[OF m, of 28800 "\<lambda>i. 1 / 2" 0]
  from t have l: "length (nextArrivals ?idx (Some ''S1'') 28800 (\<lambda>i. 1 / 2) 0) = length (stationKeys ?sd)"
    by blast
  from t have "mset (map groupKey (nextArrivals ?idx (Some ''S1'') 28800 (\<lambda>i. 1 / 2) 0))
      = mset (map groupKey (collectGroups 28800 (\<lambda>i. 1 / 2) 0 ?sd))"
    by (metis mset_map)
  also from t have "\<dots> = mset (map shownKey (stationKeys ?sd))" by metis
  finally have k: "mset (map groupKey (nextArrivals ?idx (Some ''S1'') 28800 (\<lambda>i. 1 / 2) 0))
      = mset [(''A'', ''Uptown''), (''A'', ''Downtown'')]" unfolding keys .
  show ?thesis using m l k by (simp add: stationKeys_def)
qed

section \<open>Nearest-stops query\<close>

text \<open>
  Claim C6, as the code has it. For every query point and stop list, the query computes
  the haversine great-circle distance with Earth radius 6371000 m for every stop with
  numeric coordinates, sorts the stops with the comparator \<^verbatim>\<open>a.distM - b.distM\<close> (the
  result is a permutation of the stops, ascending by distance when every stop has numeric
  coordinates), keeps those within 1200 m, falls back to the whole sorted list exactly
  when none is within 1200 m, and returns the first 12. For stops at distances 100, 500,
  1300 and 2000 m it returns the 100 m and the 500 m stop, in this order.
\<close>

theorem nearest_stops_query:
  "let mapped = map (attachDist loc) stops;
       withDist = js_sort byDistM mapped;
       withinL = filter withinRadius withDist
   in (\<forall>s\<in>set stops. \<forall>bLat bLon.
          toNumber (lat s) = Some bLat \<and> toNumber (lon s) = Some bLon \<longrightarrow>
          distM (attachDist loc s) =
            Some (2 * 6371000 * arcsin (sqrt (haversine (toRad bLat - toRad (fst loc))
              + cos (toRad (fst loc)) * cos (toRad bLat) * haversine (toRad bLon - toRad (snd loc))))))
    \<and> mset withDist = mset mapped
    \<and> ((\<forall>s\<in>set stops. toNumber (lat s) \<noteq> None \<and> toNumber (lon s) \<noteq> None) \<longrightarrow>
          sorted (map (\<lambda>z. the (distM z)) withDist)
          \<and> sorted (map (\<lambda>z. the (distM z)) (nearbyStops (Some loc) stops)))
    \<and> (\<forall>w\<in>set withDist. w \<in> set withinL \<longleftrightarrow> (\<exists>d. distM w = Some d \<and> d \<le> 1200))
    \<and> nearbyStops (Some loc) stops = take 12 (if withinL = [] then withDist else withinL)
    \<and> (mset (map distM mapped) = {#Some 100, Some 500, Some 1300, Some 2000#} \<longrightarrow>
          map distM (nearbyStops (Some loc) stops) = [Some 100, Some 500])"
proof -
  let ?mapped = "map (attachDist loc) stops"
  let ?withDist = "js_sort byDistM ?mapped"
  let ?withinL = "filter withinRadius ?withDist"
  let ?k = "\<lambda>z. the (distM z)"
  have a: "\<forall>s\<in>set stops. \<forall>bLat bLon.
          toNumber (lat s) = Some bLat \<and> toNumber (lon s) = Some bLon \<longrightarrow>
          distM (attachDist loc s) =
            Some (2 * 6371000 * arcsin (sqrt (haversine (toRad bLat - toRad (fst loc))
              + cos (toRad (fst loc)) * cos (toRad bLat) * haversine (toRad bLon - toRad (snd loc)))))"
    using attachDist_numeric by blast
  have b: "mset ?withDist = mset ?mapped" by (rule mset_js_sort)
  have c: "sorted (map ?k ?withDist) \<and> sorted (map ?k (nearbyStops (Some loc) stops))"
    if num: "\<forall>s\<in>set stops. toNumber (lat s) \<noteq> None \<and> toNumber (lon s) \<noteq> None"
  proof -
    have some: "\<forall>z\<in>set ?mapped. distM z \<noteq> None"
    proof
      fix z assume "z \<in> set ?mapped"
      then obtain s where "s \<in> set stops" "z = attachDist loc s" by auto
      then show "distM z \<noteq> None" using num attachDist_some[of s loc] by blast
    qed
    have "sorted (map ?k ?withDist)" unfolding js_sort_key[OF some] by simp
    moreover have "sorted (map ?k (nearbyStops (Some loc) stops))"
      unfolding nearbyStops_some using some by (rule nearestOf_sorted)
    ultimately show ?thesis by simp
  qed
  have d: "\<forall>w\<in>set ?withDist. w \<in> set ?withinL \<longleftrightarrow> (\<exists>d. distM w = Some d \<and> d \<le> 1200)"
    by (simp add: withinRadius_iff)
  have e: "nearbyStops (Some loc) stops = take 12 (if ?withinL = [] then ?withDist else ?withinL)"
    by (simp add: nearbyStops_some nearestOf_def Let_def)
  have f: "mset (map distM ?mapped) = {#Some 100, Some 500, Some 1300, Some 2000#} \<longrightarrow>
          map distM (nearbyStops (Some loc) stops) = [Some 100, Some 500]"
    unfolding nearbyStops_some using nearestOf_sample by blast
  show ?thesis unfolding Let_def using a b c d e f by blast
qed

theorem nearest_stops_query_witness:
  "map (\<lambda>s. toNumber (lat s)) [equatorStop ''S4'' 2000, equatorStop ''S1'' 100,
       equatorStop ''S3'' 1300, equatorStop ''S2'' 500] = [Some 0, Some 0, Some 0, Some 0]
   \<and> sorted (map (\<lambda>z. the (distM z)) (nearbyStops (Some (0, 0)) [equatorStop ''S4'' 2000,
       equatorStop ''S1'' 100, equatorStop ''S3'' 1300, equatorStop ''S2'' 500]))
   \<and> map distM (map (attachDist (0, 0)) [equatorStop ''S4'' 2000, equatorStop ''S1'' 100,
       equatorStop ''S3'' 1300, equatorStop ''S2'' 500]) = [Some 2000, Some 100, Some 1300, Some 500]
   \<and> map distM (nearbyStops (Some (0, 0)) [equatorStop ''S4'' 2000, equatorStop ''S1'' 100,
       equatorStop ''S3'' 1300, equatorStop ''S2'' 500]) = [Some 100, Some 500]
   \<and> map stop_id (nearbyStops (Some (0, 0)) [equatorStop ''S4'' 2000, equatorStop ''S1'' 100,
       equatorStop ''S3'' 1300, equatorStop ''S2'' 500]) = [''S1'', ''S2'']"
proof -
  let ?stops = "[equatorStop ''S4'' 2000, equatorStop ''S1'' 100, equatorStop ''S3'' 1300,
       equatorStop ''S2'' 500]"
  have num: "\<forall>s\<in>set ?stops. toNumber (lat s) \<noteq> None \<and> toNumber (lon s) \<noteq> None"
    by (simp add: equatorStop_def)
  have ds: "map distM (map (attachDist (0, 0)) ?stops) = [Some 2000, Some 100, Some 1300, Some 500]"
    by (simp add: equator_attach)
  then have ms: "mset (map distM (map (attachDist (0, 0)) ?stops))
      = {#Some 100, Some 500, Some 1300, Some 2000#}"
    by (simp only: mset.simps) simp
  note t = nearest_stops_query[of "(0, 0)" ?stops, unfolded Let_def]
  from t ms have r: "map distM (nearbyStops (Some (0, 0)) ?stops) = [Some 100, Some 500]"
    by blast
  have srt: "js_sort byDistM (map (attachDist (0, 0)) ?stops) =
      map (attachDist (0, 0)) [equatorStop ''S1'' 100, equatorStop ''S2'' 500,
        equatorStop ''S3'' 1300, equatorStop ''S4'' 2000]"
    by (simp add: equator_attach js_sort_def sortCompare_def byDistM_def)
  from t have "nearbyStops (Some (0, 0)) ?stops =
      take 12 (if filter withinRadius (js_sort byDistM (map (attachDist (0, 0)) ?stops)) = []
               then js_sort byDistM (map (attachDist (0, 0)) ?stops)
               else filter withinRadius (js_sort byDistM (map (attachDist (0, 0)) ?stops)))"
    by blast
  then have ids: "map stop_id (nearbyStops (Some (0, 0)) ?stops) = [''S1'', ''S2'']"
    unfolding srt by (simp add: equator_attach withinRadius_def)
  from t num have srtd: "sorted (map (\<lambda>z. the (distM z)) (nearbyStops (Some (0, 0)) ?stops))"
    by blast
  have lats: "map (\<lambda>s. toNumber (lat s)) ?stops = [Some 0, Some 0, Some 0, Some 0]"
    by (simp add: equatorStop_def)
  show ?thesis using lats srtd ds r ids by blast
qed

text \<open>
  The claim as stated, for every stop list, fails: a stop without a latitude has the
  distance \<open>NaN\<close>, every comparison with it yields \<open>NaN\<close>, read as 0, and the
  stops on either side of it keep their places. The stop 500 m away is returned ahead of
  the stop 100 m away.
\<close>

theorem nearest_stops_order_counterexample:
  "map stop_id (nearbyStops (Some (0, 0))
     [equatorStop ''A'' 500,
      \<lparr>stop_id = ''N'', name = ''no latitude'', lat = Missing, lon = Numeric 0\<rparr>,
      equatorStop ''B'' 100]) = [''A'', ''B'']
   \<and> map distM (nearbyStops (Some (0, 0))
     [equatorStop ''A'' 500,
      \<lparr>stop_id = ''N'', name = ''no latitude'', lat = Missing, lon = Numeric 0\<rparr>,
      equatorStop ''B'' 100]) = [Some 500, Some 100]"
proof -
  let ?n = "\<lparr>stop_id = ''N'', name = ''no latitude'', lat = Missing, lon = Numeric 0\<rparr>"
  have n: "attachDist (0, 0) ?n = \<lparr>stop_id = ''N'', name = ''no latitude'', lat = Missing,
      lon = Numeric 0, distM = None\<rparr>"
    by (simp add: attachDist_def distanceMeters_nan)
  have 1: "nearbyStops (Some (0, 0)) [equatorStop ''A'' 500, ?n, equatorStop ''B'' 100]
      = [attachDist (0, 0) (equatorStop ''A'' 500), attachDist (0, 0) (equatorStop ''B'' 100)]"
    by (simp add: nearbyStops_some nearestOf_def js_sort_def sortCompare_def byDistM_def
        withinRadius_def equator_attach n Let_def)
  show ?thesis unfolding 1 by (simp add: equator_attach)
qed

section \<open>Stops without numeric coordinates\<close>

text \<open>
  Claim C5, as the code has it. A stop whose latitude or longitude converts to \<open>NaN\<close>
  gets the distance \<open>NaN\<close>, not an infinite one. It fails the 1200 m filter: whenever
  some stop lies within 1200 m, it is not returned and every returned stop has a numeric
  distance of at most 1200 m.
\<close>

theorem invalid_coordinates_nan:
  assumes "s \<in> set stops" and "toNumber (lat s) = None \<or> toNumber (lon s) = None"
  shows "distM (attachDist loc s) = None
    \<and> ((\<exists>v\<in>set stops. \<exists>d. distM (attachDist loc v) = Some d \<and> d \<le> 1200) \<longrightarrow>
         attachDist loc s \<notin> set (nearbyStops (Some loc) stops)
         \<and> (\<forall>r\<in>set (nearbyStops (Some loc) stops). \<exists>d. distM r = Some d \<and> d \<le> 1200))"
proof -
  have nan: "distM (attachDist loc s) = None"
    using assms(2) by (simp add: attachDist_def distanceMeters_nan)
  have "attachDist loc s \<notin> set (nearbyStops (Some loc) stops)
         \<and> (\<forall>r\<in>set (nearbyStops (Some loc) stops). \<exists>d. distM r = Some d \<and> d \<le> 1200)"
    if "\<exists>v\<in>set stops. \<exists>d. distM (attachDist loc v) = Some d \<and> d \<le> 1200"
  proof -
    from that have ex: "\<exists>w\<in>set (map (attachDist loc) stops). withinRadius w"
      by (auto simp: withinRadius_iff)
    have all: "\<forall>r\<in>set (nearbyStops (Some loc) stops). withinRadius r"
      unfolding nearbyStops_some using nearestOf_within[OF ex] by blast
    then have "attachDist loc s \<notin> set (nearbyStops (Some loc) stops)"
      using nan by (auto simp: withinRadius_iff)
    then show ?thesis using all by (simp add: withinRadius_iff)
  qed
  then show ?thesis using nan by blast
qed

theorem invalid_coordinates_nan_witness:
  "map stop_id (nearbyStops (Some (0, 0))
     [\<lparr>stop_id = ''N'', name = ''no latitude'', lat = Missing, lon = Numeric 0\<rparr>,
      equatorStop ''A'' 500]) = [''A'']"
proof -
  let ?n = "\<lparr>stop_id = ''N'', name = ''no latitude'', lat = Missing, lon = Numeric 0\<rparr>"
  let ?stops = "[?n, equatorStop ''A'' 500]"
  have 1: "?n \<in> set ?stops" by simp
  have 2: "toNumber (lat ?n) = None \<or> toNumber (lon ?n) = None" by simp
  have 3: "\<exists>v\<in>set ?stops. \<exists>d. distM (attachDist (0, 0) v) = Some d \<and> d \<le> 1200"
    by (simp add: equator_attach)
  from invalid_coordinates_nan[OF 1 2, of "(0, 0)"] 3
  have out: "attachDist (0, 0) ?n \<notin> set (nearbyStops (Some (0, 0)) ?stops)"
    and nan: "distM (attachDist (0, 0) ?n) = None"
    by blast+
  have "nearbyStops (Some (0, 0)) ?stops = [attachDist (0, 0) (equatorStop ''A'' 500)]"
    using nan
    by (simp add: nearbyStops_some nearestOf_def js_sort_def sortCompare_def byDistM_def
        withinRadius_def equator_attach Let_def)
  then show ?thesis by (simp add: equator_attach)
qed

text \<open>
  The claim as stated fails. When no stop is within 1200 m the fallback list keeps the
  stop without a latitude, here ahead of a stop with numeric coordinates; and a stop with
  \<^verbatim>\<open>null\<close> coordinates is taken to lie at \<open>(0, 0)\<close>, at distance 0 from that query
  point, where it displaces the stop 2000 m away.
\<close>

theorem invalid_coordinates_counterexample:
  "map stop_id (nearbyStops (Some (0, 0))
     [\<lparr>stop_id = ''N'', name = ''no latitude'', lat = Missing, lon = Numeric 0\<rparr>,
      equatorStop ''A'' 2000]) = [''N'', ''A'']
   \<and> map distM (nearbyStops (Some (0, 0))
     [\<lparr>stop_id = ''N'', name = ''no latitude'', lat = Missing, lon = Numeric 0\<rparr>,
      equatorStop ''A'' 2000]) = [None, Some 2000]
   \<and> map stop_id (nearbyStops (Some (0, 0))
     [equatorStop ''A'' 2000,
      \<lparr>stop_id = ''Z'', name = ''null coordinates'', lat = Null, lon = Null\<rparr>]) = [''Z'']
   \<and> map distM (nearbyStops (Some (0, 0))
     [equatorStop ''A'' 2000,
      \<lparr>stop_id = ''Z'', name = ''null coordinates'', lat = Null, lon = Null\<rparr>]) = [Some 0]"
proof -
  let ?n = "\<lparr>stop_id = ''N'', name = ''no latitude'', lat = Missing, lon = Numeric 0\<rparr>"
  let ?z = "\<lparr>stop_id = ''Z'', name = ''null coordinates'', lat = Null, lon = Null\<rparr>"
  have n: "attachDist (0, 0) ?n = \<lparr>stop_id = ''N'', name = ''no latitude'', lat = Missing,
      lon = Numeric 0, distM = None\<rparr>"
    by (simp add: attachDist_def distanceMeters_nan)
  have z: "attachDist (0, 0) ?z = \<lparr>stop_id = ''Z'', name = ''null coordinates'', lat = Null,
      lon = Null, distM = Some 0\<rparr>"
    using equator_distance[of 0] by (simp add: attachDist_def)
  have 1: "nearbyStops (Some (0, 0)) [?n, equatorStop ''A'' 2000]
      = [attachDist (0, 0) ?n, attachDist (0, 0) (equatorStop ''A'' 2000)]"
    by (simp add: nearbyStops_some nearestOf_def js_sort_def sortCompare_def byDistM_def
        withinRadius_def equator_attach n Let_def)
  have 2: "nearbyStops (Some (0, 0)) [equatorStop ''A'' 2000, ?z] = [attachDist (0, 0) ?z]"
    by (simp add: nearbyStops_some nearestOf_def js_sort_def sortCompare_def byDistM_def
        withinRadius_def equator_attach z Let_def)
  show ?thesis unfolding 1 2 by (simp add: n z equator_attach)
qed

section \<open>Quoting in the tabular readers\<close>

text \<open>
  Claim C9, as the code has it. Inside a quoted field \<^verbatim>\<open>parseCSVLine\<close> and
  \<^verbatim>\<open>parseCSV\<close> turn a doubled quote into exactly one literal quote, while
  \<^verbatim>\<open>splitCsvLine\<close> drops both quote characters; in all three readers a comma inside a
  quoted field is a literal character and starts no new field. Hence a line written from
  fields (quoted ones with their quotes doubled) is read back by \<^verbatim>\<open>parseCSVLine\<close> and
  \<^verbatim>\<open>parseCSV\<close> as the field values, and by \<^verbatim>\<open>splitCsvLine\<close> as the field values
  without their quote characters.
\<close>

theorem quoted_fields_read_back:
  assumes "fs \<noteq> []" and "\<forall>x\<in>set fs. plainField x"
  shows "parseCSVLine (joinFields (map writeField fs)) = map snd fs
    \<and> ((\<exists>x\<in>set fs. trim (snd x) \<noteq> []) \<longrightarrow>
          parseCSV (joinFields (map writeField fs)) = [map snd fs])
    \<and> splitCsvLine (joinFields (map writeField fs)) = map (\<lambda>x. dropQuotes (snd x)) fs
    \<and> parseCSVLine_loop (dquote # dquote # rest) out cur True =
          parseCSVLine_loop rest out (cur @ [dquote]) True
    \<and> parseCSV_loop (dquote # dquote # rest) rows row cur True =
          parseCSV_loop rest rows row (cur @ [dquote]) True
    \<and> splitCsvLine_loop (dquote # dquote # rest) out cur True =
          splitCsvLine_loop rest out cur True
    \<and> parseCSVLine_loop (comma # rest) out cur True =
          parseCSVLine_loop rest out (cur @ [comma]) True
    \<and> parseCSV_loop (comma # rest) rows row cur True =
          parseCSV_loop rest rows row (cur @ [comma]) True
    \<and> splitCsvLine_loop (comma # rest) out cur True =
          splitCsvLine_loop rest out (cur @ [comma]) True"
proof -
  have c: "comma \<noteq> dquote" using dquote_neq_comma by simp
  have 1: "parseCSVLine_loop (comma # rest) out cur True =
          parseCSVLine_loop rest out (cur @ [comma]) True"
    using c by (simp add: line_step_other del: parseCSVLine_loop.simps)
  have 2: "parseCSV_loop (comma # rest) rows row cur True =
          parseCSV_loop rest rows row (cur @ [comma]) True"
    using c by (rule text_step_quoted)
  have 3: "splitCsvLine_loop (comma # rest) out cur True =
          splitCsvLine_loop rest out (cur @ [comma]) True"
    using c by (simp add: split_step_other)
  have 4: "splitCsvLine_loop (dquote # dquote # rest) out cur True =
          splitCsvLine_loop rest out cur True"
    by simp
  show ?thesis
    using parseCSVLine_written[OF assms] parseCSV_written[OF assms]
      splitCsvLine_written[OF assms] line_step_escaped text_step_escaped 1 2 3 4
    by blast
qed

theorem quoted_fields_read_back_witness:
  "joinFields (map writeField [(True, ''a,b''), (False, ''c''), (True, [CHR ''x'', dquote, CHR ''y''])])
     = [dquote, CHR ''a'', comma, CHR ''b'', dquote, comma, CHR ''c'', comma,
        dquote, CHR ''x'', dquote, dquote, CHR ''y'', dquote]
   \<and> parseCSVLine [dquote, CHR ''a'', comma, CHR ''b'', dquote, comma, CHR ''c'', comma,
        dquote, CHR ''x'', dquote, dquote, CHR ''y'', dquote]
     = [''a,b'', ''c'', [CHR ''x'', dquote, CHR ''y'']]
   \<and> parseCSV [dquote, CHR ''a'', comma, CHR ''b'', dquote, comma, CHR ''c'', comma,
        dquote, CHR ''x'', dquote, dquote, CHR ''y'', dquote]
     = [[''a,b'', ''c'', [CHR ''x'', dquote, CHR ''y'']]]
   \<and> splitCsvLine [dquote, CHR ''a'', comma, CHR ''b'', dquote, comma, CHR ''c'', comma,
        dquote, CHR ''x'', dquote, dquote, CHR ''y'', dquote]
     = [''a,b'', ''c'', ''xy'']"
proof -
  let ?fs = "[(True, ''a,b''), (False, ''c''), (True, [CHR ''x'', dquote, CHR ''y''])]"
  have w: "joinFields (map writeField ?fs)
     = [dquote, CHR ''a'', comma, CHR ''b'', dquote, comma, CHR ''c'', comma,
        dquote, CHR ''x'', dquote, dquote, CHR ''y'', dquote]"
    by (simp add: writeField_def quoteField_def escapeQuotes_def dquote_def comma_def)
  have 1: "?fs \<noteq> []" by simp
  have 2: "\<forall>x\<in>set ?fs. plainField x"
    by (simp add: plainField_def dquote_def comma_def isLineBreak_def)
  have 3: "\<exists>x\<in>set ?fs. trim (snd x) \<noteq> []"
    by (simp add: trim_def isWhiteSpace_def)
  have d: "dropQuotes [CHR ''x'', dquote, CHR ''y''] = ''xy''" "dropQuotes ''a,b'' = ''a,b''"
    "dropQuotes ''c'' = ''c''"
    by (simp_all add: dropQuotes_def dquote_def)
  show ?thesis
    using quoted_fields_read_back[OF 1 2] 3 unfolding w by (simp add: d comma_def)
qed

text \<open>
  The claim as stated fails for \<^verbatim>\<open>splitCsvLine\<close>: the line \<^verbatim>\<open>"a""b"\<close> is read as
  the field \<open>ab\<close>, without the quote that \<^verbatim>\<open>parseCSVLine\<close> keeps.
\<close>

theorem doubled_quote_counterexample:
  "splitCsvLine [dquote, CHR ''a'', dquote, dquote, CHR ''b'', dquote] = [''ab'']
   \<and> parseCSVLine [dquote, CHR ''a'', dquote, dquote, CHR ''b'', dquote] = [[CHR ''a'', dquote, CHR ''b'']]"
  by (simp add: splitCsvLine_def parseCSVLine_def dquote_def comma_def)

section \<open>Arrival index invariant\<close>

text \<open>
  Claim C7. After the final step of the ingestion, every station/line/headsign bucket of
  the index is sorted ascending in the lexicographic order of its strings (characters
  compared by their codes) and holds at most 120 entries.
\<close>

theorem arrival_index_invariant:
  "\<forall>arr\<in>set (buckets (build_station_arrivals stopsTxt routesTxt tripsTxt stopTimesTxt)).
      sorted arr \<and> length arr \<le> 120
      \<and> sorted_wrt (\<lambda>a b. a = b \<or> (a, b) \<in> lexord {(c, d). of_char c < (of_char d :: nat)}) arr"
proof
  fix arr
  assume "arr \<in> set (buckets (build_station_arrivals stopsTxt routesTxt tripsTxt stopTimesTxt))"
  then obtain raw where arr: "arr = take 120 (sort raw)"
    by (auto simp: build_station_arrivals_def Let_def buckets_sortAndTrim)
  have s: "sorted arr" unfolding arr by (simp add: sorted_wrt_take)
  have "length arr \<le> 120" unfolding arr by simp
  with s sorted_lexord[OF s] show "sorted arr \<and> length arr \<le> 120
      \<and> sorted_wrt (\<lambda>a b. a = b \<or> (a, b) \<in> lexord {(c, d). of_char c < (of_char d :: nat)}) arr"
    by simp
qed

theorem arrival_index_invariant_witness:
  "build_station_arrivals
     [''stop_id,parent_station'', ''S1N,S1'']
     [''route_id,route_short_name'', ''R1,a'']
     [''trip_id,route_id,trip_headsign'', ''T1,R1,Uptown'']
     [''trip_id,stop_id,arrival_time'', ''T1,S1N,08:05:00'', [], ''T1,S1N,25:10:00'',
      ''T1,S1N,07:00:00'', ''T9,S1N,06:00:00'']
     = [(''S1'', [(''A'', [(''Uptown'', [''07:00:00'', ''08:05:00'', ''25:10:00''])])])]
   \<and> sorted [''07:00:00'', ''08:05:00'', ''25:10:00'']
   \<and> length [''07:00:00'', ''08:05:00'', ''25:10:00''] \<le> 120"
proof -
  let ?idx = "build_station_arrivals
     [''stop_id,parent_station'', ''S1N,S1'']
     [''route_id,route_short_name'', ''R1,a'']
     [''trip_id,route_id,trip_headsign'', ''T1,R1,Uptown'']
     [''trip_id,stop_id,arrival_time'', ''T1,S1N,08:05:00'', [], ''T1,S1N,25:10:00'',
      ''T1,S1N,07:00:00'', ''T9,S1N,06:00:00'']"
  have e: "?idx = [(''S1'', [(''A'', [(''Uptown'', [''07:00:00'', ''08:05:00'', ''25:10:00''])])])]"
    by code_simp
  then have "[''07:00:00'', ''08:05:00'', ''25:10:00''] \<in> set (buckets ?idx)"
    by (simp add: buckets_def)
  with arrival_index_invariant
  have "sorted [''07:00:00'', ''08:05:00'', ''25:10:00'']
      \<and> length [''07:00:00'', ''08:05:00'', ''25:10:00''] \<le> 120"
    by blast
  with e show ?thesis by blast
qed

section \<open>Route-name resolution\<close>

text \<open>
  Claim C8, as the code has it. For a route row that is the only one with its non-empty
  route id: the mappings of build\_gtfs\_json (for a row kept as a subway route) and of
  build\_route\_shapes map the id to the trimmed short name and fall back to the id when
  that is blank; the mappings of the two joiners (station arrivals and station to lines)
  map the id to the upper-cased trimmed short name and hold no entry for the id when the
  trimmed short name is blank.
\<close>

theorem route_name_resolution:
  assumes "r \<in> set routes" and "r ''route_id'' = Some rid" and "rid \<noteq> []"
    and "\<forall>r'\<in>set routes. r' ''route_id'' = Some rid \<longrightarrow> r' = r"
    and "short = trim (orEmpty (r ''route_short_name''))"
  shows "routeIdToShort_route_shapes routes (Some rid) = Some (if short \<noteq> [] then short else rid)
    \<and> (r \<in> set (subwayRoutes routes) \<longrightarrow>
          routeIdToShort_gtfs_json routes (Some rid) = Some (if short \<noteq> [] then short else rid))
    \<and> routeIdToLine routes (Some rid) = (if short \<noteq> [] then Some (toUpperCase short) else None)
    \<and> routeIdToShort_station_to_lines routes (Some rid)
         = (if short \<noteq> [] then Some (toUpperCase short) else None)"
proof -
  have u: "\<forall>r'\<in>set routes. r' ''route_id'' = r ''route_id'' \<longrightarrow> r' = r"
    using assms(2,4) by simp
  have t: "truthy (r ''route_id'')" using assms(2,3) by (simp add: truthy_def)
  have 1: "routeIdToShort_route_shapes routes (Some rid) = Some (if short \<noteq> [] then short else rid)"
    using routeIdToShort_route_shapes_unique[OF assms(1) u] t assms(2,5) by simp
  have 2: "routeIdToShort_gtfs_json routes (Some rid) = Some (if short \<noteq> [] then short else rid)"
    if "r \<in> set (subwayRoutes routes)"
    using routeIdToShort_gtfs_json_unique[OF that u] assms(2,5) by simp
  have 3: "routeIdToLine routes (Some rid) = (if short \<noteq> [] then Some (toUpperCase short) else None)"
    using routeIdToLine_unique[OF assms(1) u] t assms(2,5) by simp
  show ?thesis using 1 2 3 by (simp add: routeIdToShort_station_to_lines_eq)
qed

theorem route_name_resolution_witness:
  "routeIdToShort_route_shapes (readGTFS [''route_id,route_short_name'', ''R1, a '', ''X,  '']) (Some ''X'')
     = Some ''X''
   \<and> routeIdToShort_route_shapes (readGTFS [''route_id,route_short_name'', ''R1, a '', ''X,  '']) (Some ''R1'')
     = Some ''a''
   \<and> routeIdToLine (readGTFS [''route_id,route_short_name'', ''R1, a '', ''X,  '']) (Some ''R1'')
     = Some ''A''"
proof -
  let ?h = "[''route_id'', ''route_short_name'']"
  let ?r1 = "mkRow ?h [''R1'', '' a '']"
  let ?x = "mkRow ?h [''X'', ''  '']"
  have p: "parseCSVLine ''route_id,route_short_name'' = ?h"
    "parseCSVLine ''R1, a '' = [''R1'', '' a '']" "parseCSVLine ''X,  '' = [''X'', ''  '']"
    "trim ''route_id'' = ''route_id''" "trim ''route_short_name'' = ''route_short_name''"
    "filter (\<lambda>l. trim l \<noteq> []) [''route_id,route_short_name'', ''R1, a '', ''X,  '']
       = [''route_id,route_short_name'', ''R1, a '', ''X,  '']"
    by code_simp+
  have rows: "readGTFS [''route_id,route_short_name'', ''R1, a '', ''X,  ''] = [?r1, ?x]"
    unfolding readGTFS_def p by (simp add: p)
  have f: "?r1 ''route_id'' = Some ''R1''" "?x ''route_id'' = Some ''X''"
    "trim (orEmpty (?r1 ''route_short_name'')) = ''a''" "trim (orEmpty (?x ''route_short_name'')) = []"
    by code_simp+
  have ux: "\<forall>r'\<in>set [?r1, ?x]. r' ''route_id'' = Some ''X'' \<longrightarrow> r' = ?x"
    using f(1) by auto
  have u1: "\<forall>r'\<in>set [?r1, ?x]. r' ''route_id'' = Some ''R1'' \<longrightarrow> r' = ?r1"
    using f(2) by auto
  have up: "toUpperCase ''a'' = ''A''" by code_simp
  note a = route_name_resolution[of ?x "[?r1, ?x]" "''X''" "[]", OF _ f(2) _ ux f(4)[symmetric]]
  note b = route_name_resolution[of ?r1 "[?r1, ?x]" "''R1''" "''a''", OF _ f(1) _ u1 f(3)[symmetric]]
  show ?thesis unfolding rows using a b up by simp
qed

text \<open>
  The claim as stated fails for the two joiners: a route whose short name is blank gets
  no entry instead of its id, and a short name is stored in upper case.
\<close>

theorem route_name_counterexample:
  "routeIdToLine (loadTable [''route_id,route_short_name'', ''X,  '', ''R1,a'']) (Some ''X'') = None
   \<and> routeIdToShort_station_to_lines (loadTable [''route_id,route_short_name'', ''X,  '', ''R1,a''])
        (Some ''X'') = None
   \<and> routeIdToLine (loadTable [''route_id,route_short_name'', ''X,  '', ''R1,a'']) (Some ''R1'') = Some ''A''"
  by code_simp

section \<open>Shape selection\<close>

text \<open>
  Claim C4, as the code has it. Let the route ids, directions and shape ids of the trips
  hold no bar. For every (route, direction) group with at least one trip that has a
  route id and a shape id, the group's entry selects a shape of the group referenced by
  the highest number of its trips, and the number of features emitted for the group is
  exactly one when the selected shape has at least 2 valid points and zero otherwise;
  it is never more than one.
\<close>

theorem shape_selection:
  assumes "\<forall>t\<in>set trips. usableTrip t \<longrightarrow>
        bar \<notin> set (tripRoute t) \<and> bar \<notin> set (tripDir t) \<and> bar \<notin> set (tripShape t)"
    and "t0 \<in> set trips" and "usableTrip t0"
  shows "\<exists>s c. map_of (bestShapeByRouteDir trips) (tripRoute t0 @ bar # tripDir t0) = Some (Some s, c)
      \<and> c = tripCount trips (tripRoute t0) (tripDir t0) s \<and> 1 \<le> c
      \<and> (\<forall>s'. tripCount trips (tripRoute t0) (tripDir t0) s' \<le> c)
      \<and> length (filter (\<lambda>f. route_id f = Some (tripRoute t0) \<and> direction_id f = Some (tripDir t0))
            (featuresOf num routes trips shapes))
          = (if 2 \<le> length (validPoints num shapes s) then 1 else 0)"
proof -
  from group_entry[OF assms]
  obtain s c where e: "map_of (bestShapeByRouteDir trips) (tripRoute t0 @ bar # tripDir t0) = Some (Some s, c)"
    "s \<noteq> []" "c = tripCount trips (tripRoute t0) (tripDir t0) s" "1 \<le> c"
    "\<forall>s'. tripCount trips (tripRoute t0) (tripDir t0) s' \<le> c"
    by blast
  from group_feature_count[OF assms e(1,2)] e show ?thesis by blast
qed

theorem shape_selection_witness:
  "map_of (bestShapeByRouteDir (readGTFS
       [''route_id,direction_id,shape_id'', ''R,0,A'', ''R,0,B'', ''R,,B'', ''R,1,C''])) ''R|0''
     = Some (Some ''B'', 2)
   \<and> length (validPoints digitsToNumber (readGTFS
       [''shape_id,shape_pt_lat,shape_pt_lon,shape_pt_sequence'', ''B,40,73,2'', ''B,41,74,1'',
        ''C,40,73,1'', ''C,x,73,2'']) ''B'') = 2
   \<and> length (filter (\<lambda>f. route_id f = Some ''R'' \<and> direction_id f = Some ''0'')
       (route_shape_features digitsToNumber
          [''route_id,route_short_name'', ''R,r'']
          [''route_id,direction_id,shape_id'', ''R,0,A'', ''R,0,B'', ''R,,B'', ''R,1,C'']
          [''shape_id,shape_pt_lat,shape_pt_lon,shape_pt_sequence'', ''B,40,73,2'', ''B,41,74,1'',
           ''C,40,73,1'', ''C,x,73,2''])) = 1"
proof -
  let ?tripsTxt = "[''route_id,direction_id,shape_id'', ''R,0,A'', ''R,0,B'', ''R,,B'', ''R,1,C'']"
  let ?shapesTxt = "[''shape_id,shape_pt_lat,shape_pt_lon,shape_pt_sequence'', ''B,40,73,2'',
     ''B,41,74,1'', ''C,40,73,1'', ''C,x,73,2'']"
  let ?routesTxt = "[''route_id,route_short_name'', ''R,r'']"
  let ?trips = "readGTFS ?tripsTxt"
  let ?H = "\<lambda>t. usableTrip t \<longrightarrow>
        bar \<notin> set (tripRoute t) \<and> bar \<notin> set (tripDir t) \<and> bar \<notin> set (tripShape t)"
  have "list_all ?H ?trips" by code_simp
  then have H: "\<forall>t\<in>set ?trips. ?H t" by (simp only: list_all_iff)
  have "?trips \<noteq> []" by code_simp
  then have t0: "hd ?trips \<in> set ?trips" by (rule hd_in_set)
  have u: "usableTrip (hd ?trips)" by code_simp
  have g: "tripRoute (hd ?trips) = ''R''" "tripDir (hd ?trips) = ''0''" by code_simp+
  have rd: "''R'' @ bar # ''0'' = ''R|0''" by (simp add: bar_def)
  have best: "map_of (bestShapeByRouteDir ?trips) ''R|0'' = Some (Some ''B'', 2)" by code_simp
  have pts: "length (validPoints digitsToNumber (readGTFS ?shapesTxt) ''B'') = 2" by code_simp
  from shape_selection[OF H t0 u, of digitsToNumber "readGTFS ?routesTxt" "readGTFS ?shapesTxt"]
  obtain s c where sc: "map_of (bestShapeByRouteDir ?trips) ''R|0'' = Some (Some s, c)"
    "length (filter (\<lambda>f. route_id f = Some ''R'' \<and> direction_id f = Some ''0'')
       (featuresOf digitsToNumber (readGTFS ?routesTxt) ?trips (readGTFS ?shapesTxt)))
     = (if 2 \<le> length (validPoints digitsToNumber (readGTFS ?shapesTxt) s) then 1 else 0)"
    unfolding g rd by blast
  from sc(1) best have "s = ''B''" by simp
  with sc(2) pts have "length (filter (\<lambda>f. route_id f = Some ''R'' \<and> direction_id f = Some ''0'')
       (featuresOf digitsToNumber (readGTFS ?routesTxt) ?trips (readGTFS ?shapesTxt))) = 1"
    by simp
  with best pts show ?thesis by (simp add: route_shape_features_def)
qed

text \<open>
  The claim as stated fails. The group (R, 0) has three trips; two reference shape A,
  which has a single point, and one references shape B, which has two valid points.
  Shape A is selected, the group is discarded, and no feature is emitted.
\<close>

theorem shape_selection_counterexample:
  "route_shape_features digitsToNumber
     [''route_id,route_short_name'', ''R,r'']
     [''route_id,direction_id,shape_id'', ''R,0,A'', ''R,0,A'', ''R,0,B'']
     [''shape_id,shape_pt_lat,shape_pt_lon,shape_pt_sequence'', ''B,40,73,2'', ''B,41,74,1'',
      ''A,1,1,1''] = []
   \<and> tripCount (readGTFS [''route_id,direction_id,shape_id'', ''R,0,A'', ''R,0,A'', ''R,0,B''])
        ''R'' ''0'' ''B'' = 1
   \<and> length (validPoints digitsToNumber
        (readGTFS [''shape_id,shape_pt_lat,shape_pt_lon,shape_pt_sequence'', ''B,40,73,2'',
           ''B,41,74,1'', ''A,1,1,1'']) ''B'') = 2"
  by code_simp

end
